theory Spec2Isabelle
  imports Complex_Main "HOL-Library.AList" "HOL-Library.Monad_Syntax"
begin

section \<open>Data model of the concept network (concept-network.js)\<close>

text \<open>
  JavaScript numbers are modelled as \<^typ>\<open>real\<close>, with exact arithmetic; the rounding of
  double precision is added for one round of \<^verbatim>\<open>spreadActivation\<close> in the subsection on
  double precision below. Counters that only start at 0 and are
  incremented are \<^typ>\<open>nat\<close>. A JavaScript \<^verbatim>\<open>Map\<close> keeps its keys in insertion order:
  \<^verbatim>\<open>set\<close> on a present key replaces the value in place, on a new key appends, and
  \<^verbatim>\<open>delete\<close> removes the entry. It is an association list with \<^const>\<open>AList.update\<close>,
  \<^const>\<open>AList.delete\<close> and \<^const>\<open>map_of\<close>; a method call on an object stored in a map
  (\<^verbatim>\<open>this.nodes.get(k).m()\<close>) rewrites the entry, \<^const>\<open>AList.map_entry\<close>.
  An optional argument (\<^verbatim>\<open>undefined\<close> or \<^verbatim>\<open>null\<close>) is \<^const>\<open>None\<close>.
  The \<^verbatim>\<open>timestamp\<close> of a history entry (the wall clock) is not modelled.
\<close>

type_synonym concept_id = string

record ConceptNode =
  node_id :: concept_id
  label :: string
  category :: "string option"
  connections :: "(concept_id \<times> real) list"
  activation :: real
  prevActivation :: real
  metadata :: "(string \<times> string) list"

record concept_info =
  c_id :: concept_id
  c_label :: string
  c_activation :: real
  c_category :: "string option"

record history_entry =
  h_iteration :: nat
  h_activations :: "concept_info list"

record params =
  activationThreshold :: real
  decayRate :: real
  maxIterations :: real
  convergenceThreshold :: real

record ConceptNetwork =
  nodes :: "(concept_id \<times> ConceptNode) list"
  activationHistory :: "history_entry list"
  iterationCount :: nat
  params :: params

datatype error = IdCollision concept_id | NotFound concept_id | TypeError

definition map_has :: "('k \<times> 'v) list \<Rightarrow> 'k \<Rightarrow> bool" where
  "map_has m k = (map_of m k \<noteq> None)"

subsection \<open>ConceptNode\<close>

definition new_ConceptNode :: "concept_id \<Rightarrow> string \<Rightarrow> string option \<Rightarrow> ConceptNode" where
  "new_ConceptNode i l c =
     \<lparr>node_id = i, label = l, category = c, connections = [], activation = 0,
      prevActivation = 0, metadata = []\<rparr>"

definition node_addConnection :: "concept_id \<Rightarrow> real \<Rightarrow> ConceptNode \<Rightarrow> ConceptNode" where
  "node_addConnection targetId weight n =
     n\<lparr>connections := AList.update targetId weight (connections n)\<rparr>"

definition node_removeConnection :: "concept_id \<Rightarrow> ConceptNode \<Rightarrow> bool \<times> ConceptNode" where
  "node_removeConnection targetId n =
     (map_has (connections n) targetId,
      n\<lparr>connections := AList.delete targetId (connections n)\<rparr>)"

definition updateActivation :: "real \<Rightarrow> ConceptNode \<Rightarrow> ConceptNode" where
  "updateActivation newValue n = n\<lparr>prevActivation := activation n, activation := newValue\<rparr>"

definition getActivationDelta :: "ConceptNode \<Rightarrow> real" where
  "getActivationDelta n = \<bar>activation n - prevActivation n\<bar>"

subsection \<open>Graph mutation\<close>

definition default_params :: params where
  "default_params =
     \<lparr>activationThreshold = 0.7, decayRate = 0.1, maxIterations = 5,
      convergenceThreshold = 0.01\<rparr>"

definition new_ConceptNetwork :: ConceptNetwork where
  "new_ConceptNetwork =
     \<lparr>nodes = [], activationHistory = [], iterationCount = 0, params = default_params\<rparr>"

text \<open>
  \<^verbatim>\<open>addConcept(label, category = null, id = null)\<close>: \<^verbatim>\<open>id || uuidv4()\<close> draws a fresh
  identifier when the given one is absent or the empty string; the identifier that
  \<^verbatim>\<open>uuidv4()\<close> would return is the argument \<open>fresh\<close>.
\<close>

definition addConcept ::
  "string \<Rightarrow> string option \<Rightarrow> concept_id option \<Rightarrow> concept_id \<Rightarrow> ConceptNetwork
     \<Rightarrow> error + (concept_id \<times> ConceptNetwork)" where
  "addConcept l c i fresh net =
     (let conceptId = (case i of None \<Rightarrow> fresh | Some s \<Rightarrow> if s = [] then fresh else s) in
      if map_has (nodes net) conceptId then Inl (IdCollision conceptId)
      else Inr (conceptId,
                net\<lparr>nodes := AList.update conceptId (new_ConceptNode conceptId l c) (nodes net)\<rparr>))"

definition removeConcept :: "concept_id \<Rightarrow> ConceptNetwork \<Rightarrow> bool \<times> ConceptNetwork" where
  "removeConcept conceptId net =
     (if \<not> map_has (nodes net) conceptId then (False, net)
      else
        let nodes1 = map (\<lambda>(k, n). (k, snd (node_removeConnection conceptId n))) (nodes net)
        in (map_has nodes1 conceptId, net\<lparr>nodes := AList.delete conceptId nodes1\<rparr>))"

definition getConcept :: "concept_id \<Rightarrow> ConceptNetwork \<Rightarrow> error + ConceptNode" where
  "getConcept conceptId net =
     (case map_of (nodes net) conceptId of
        None \<Rightarrow> Inl (NotFound conceptId)
      | Some node \<Rightarrow> Inr node)"

text \<open>
  \<^verbatim>\<open>addConnection(sourceId, targetId, weight = 0.5, bidirectional = true)\<close>. Both lookups
  come before the first write, so a thrown \<^verbatim>\<open>Error\<close> leaves the graph as it was.
  \<^verbatim>\<open>sourceNode\<close> and \<^verbatim>\<open>targetNode\<close> are references into the map: the second write sees
  the first when the two ids are equal.
\<close>

definition addConnection ::
  "concept_id \<Rightarrow> concept_id \<Rightarrow> real option \<Rightarrow> bool option \<Rightarrow> ConceptNetwork
     \<Rightarrow> error + ConceptNetwork" where
  "addConnection sourceId targetId weight bidirectional net =
     (let w = (case weight of None \<Rightarrow> 0.5 | Some x \<Rightarrow> x);
          b = (case bidirectional of None \<Rightarrow> True | Some x \<Rightarrow> x);
          safeWeight = max 0 (min 1 w)
      in case getConcept sourceId net of
           Inl e \<Rightarrow> Inl e
         | Inr sourceNode \<Rightarrow>
            (case getConcept targetId net of
               Inl e \<Rightarrow> Inl e
             | Inr targetNode \<Rightarrow>
                (let nodes1 = AList.map_entry sourceId (node_addConnection targetId safeWeight)
                                (nodes net);
                     nodes2 = (if b
                               then AList.map_entry targetId
                                      (node_addConnection sourceId safeWeight) nodes1
                               else nodes1)
                 in Inr (net\<lparr>nodes := nodes2\<rparr>))))"

definition removeConnection ::
  "concept_id \<Rightarrow> concept_id \<Rightarrow> bool option \<Rightarrow> ConceptNetwork \<Rightarrow> bool \<times> ConceptNetwork" where
  "removeConnection sourceId targetId bidirectional net =
     (let b = (case bidirectional of None \<Rightarrow> True | Some x \<Rightarrow> x);
          success = (case map_of (nodes net) sourceId of
                       None \<Rightarrow> False
                     | Some n \<Rightarrow> fst (node_removeConnection targetId n));
          nodes1 = (if map_has (nodes net) sourceId
                    then AList.map_entry sourceId (\<lambda>n. snd (node_removeConnection targetId n))
                           (nodes net)
                    else nodes net);
          nodes2 = (if b \<and> map_has nodes1 targetId
                    then AList.map_entry targetId (\<lambda>n. snd (node_removeConnection sourceId n))
                           nodes1
                    else nodes1)
      in (success, net\<lparr>nodes := nodes2\<rparr>))"

text \<open>
  The invariant of \<^verbatim>\<open>this.nodes\<close>: a \<^verbatim>\<open>Map\<close> has no duplicate keys, and every node is
  stored under its own id (\<^verbatim>\<open>addConcept\<close> is the only insertion). Edge maps are
  \<^verbatim>\<open>Map\<close>s as well.
\<close>

definition wf_nodes :: "(concept_id \<times> ConceptNode) list \<Rightarrow> bool" where
  "wf_nodes ns =
     (distinct (map fst ns) \<and>
      list_all (\<lambda>(k, n). node_id n = k \<and> distinct (map fst (connections n))) ns)"

definition wf_network :: "ConceptNetwork \<Rightarrow> bool" where
  "wf_network net = wf_nodes (nodes net)"

subsection \<open>Activation engine\<close>

text \<open>
  The first argument of \<^verbatim>\<open>setInitialActivation\<close> is an array of ids
  (\<^verbatim>\<open>Array.isArray\<close>), an object whose entries map ids to values, or a value that is
  neither (a string, a number, \<^verbatim>\<open>undefined\<close>), which seeds no node. The entries of an
  object have distinct keys. (\<^verbatim>\<open>null\<close>, on which \<^verbatim>\<open>Object.entries\<close> throws, is outside
  this type.)
\<close>

datatype selection =
  IdList "concept_id list"
| IdMap "(concept_id \<times> real) list"
| NotObject

definition recordActivationState :: "ConceptNetwork \<Rightarrow> ConceptNetwork" where
  "recordActivationState net =
     (let snapshot = map (\<lambda>(i, node).
                       \<lparr>c_id = i, c_label = label node, c_activation = activation node,
                        c_category = category node\<rparr>) (nodes net)
      in net\<lparr>activationHistory :=
                 activationHistory net @
                   [\<lparr>h_iteration = iterationCount net, h_activations = snapshot\<rparr>],
              iterationCount := iterationCount net + 1\<rparr>)"

definition setInitialActivation ::
  "selection \<Rightarrow> real option \<Rightarrow> ConceptNetwork \<Rightarrow> ConceptNetwork" where
  "setInitialActivation concepts activationValue net =
     (let v = (case activationValue of None \<Rightarrow> 1 | Some x \<Rightarrow> x);
          nodes0 = map (\<lambda>(k, node). (k, updateActivation 0 node)) (nodes net);
          nodes1 =
            (case concepts of
               IdList ids \<Rightarrow>
                 fold (\<lambda>i ns. if map_has ns i
                               then AList.map_entry i (updateActivation v) ns else ns)
                   ids nodes0
             | IdMap m \<Rightarrow>
                 fold (\<lambda>(i, a) ns. if map_has ns i
                                    then AList.map_entry i (updateActivation a) ns else ns)
                   m nodes0
             | NotObject \<Rightarrow> nodes0)
      in recordActivationState (net\<lparr>nodes := nodes1, activationHistory := [],
                                     iterationCount := 0\<rparr>))"

definition sigmoid :: "real \<Rightarrow> real" where
  "sigmoid x = 1 / (1 + exp (- x))"

record spread_result =
  r_iteration :: nat
  r_totalDelta :: real

definition incomingActivation ::
  "(concept_id \<times> ConceptNode) list \<Rightarrow> ConceptNode \<Rightarrow> real" where
  "incomingActivation ns node =
     fold (\<lambda>(connectedId, weight) s.
             case map_of ns connectedId of
               None \<Rightarrow> s
             | Some connectedNode \<Rightarrow> s + activation connectedNode * weight)
       (connections node) 0"

text \<open>
  \<^verbatim>\<open>spreadActivation(decayRate = null)\<close>. The first loop fills the fresh map
  \<^verbatim>\<open>newActivations\<close>, the second commits it; its keys are keys of \<^verbatim>\<open>this.nodes\<close>, so
  \<^verbatim>\<open>this.nodes.get(nodeId)\<close> is always defined there.
\<close>

definition newActivations ::
  "real \<Rightarrow> (concept_id \<times> ConceptNode) list \<Rightarrow> (concept_id \<times> real) list" where
  "newActivations actualDecayRate ns =
     fold (\<lambda>(nodeId, node) acc.
             let decayedActivation = activation node * (1 - actualDecayRate);
                 newActivation = sigmoid (decayedActivation + incomingActivation ns node)
             in AList.update nodeId newActivation acc)
       ns []"

definition spreadActivation ::
  "real option \<Rightarrow> ConceptNetwork \<Rightarrow> spread_result \<times> ConceptNetwork" where
  "spreadActivation d net =
     (let actualDecayRate = (case d of None \<Rightarrow> decayRate (params net) | Some x \<Rightarrow> x);
          nodes1 = fold (\<lambda>(nodeId, newActivation) ns.
                           AList.map_entry nodeId (updateActivation newActivation) ns)
                     (newActivations actualDecayRate (nodes net)) (nodes net);
          totalDelta = foldl (\<lambda>sum node. sum + getActivationDelta node) 0 (map snd nodes1);
          net1 = recordActivationState (net\<lparr>nodes := nodes1\<rparr>)
      in (\<lparr>r_iteration = iterationCount net1 - 1, r_totalDelta = totalDelta\<rparr>, net1))"

text \<open>
  \<^verbatim>\<open>runUntilConvergence(options = {})\<close>. \<^verbatim>\<open>a || b\<close> yields \<^verbatim>\<open>b\<close> when \<^verbatim>\<open>a\<close> is falsy:
  \<^verbatim>\<open>undefined\<close> or the number 0. \<^verbatim>\<open>totalDelta\<close> starts as \<^verbatim>\<open>Infinity\<close>, greater than
  every number.
\<close>

record run_options =
  opt_maxIterations :: "real option"
  opt_convergenceThreshold :: "real option"
  opt_decayRate :: "real option"

record run_config =
  cfg_maxIterations :: real
  cfg_convergenceThreshold :: real
  cfg_decayRate :: real

datatype js_delta = Infinity | Delta real

record run_result =
  converged :: bool
  iterations :: nat
  finalDelta :: js_delta

definition js_or :: "real option \<Rightarrow> real \<Rightarrow> real" where
  "js_or a b = (case a of None \<Rightarrow> b | Some x \<Rightarrow> if x = 0 then b else x)"

fun delta_gt :: "js_delta \<Rightarrow> real \<Rightarrow> bool" where
  "delta_gt Infinity t = True"
| "delta_gt (Delta x) t = (x > t)"

fun delta_le :: "js_delta \<Rightarrow> real \<Rightarrow> bool" where
  "delta_le Infinity t = False"
| "delta_le (Delta x) t = (x \<le> t)"

definition run_config_of :: "run_options \<Rightarrow> params \<Rightarrow> run_config" where
  "run_config_of options ps =
     \<lparr>cfg_maxIterations = js_or (opt_maxIterations options) (maxIterations ps),
      cfg_convergenceThreshold =
        js_or (opt_convergenceThreshold options) (convergenceThreshold ps),
      cfg_decayRate = js_or (opt_decayRate options) (decayRate ps)\<rparr>"

function run_loop ::
  "run_config \<Rightarrow> nat \<Rightarrow> js_delta \<Rightarrow> ConceptNetwork \<Rightarrow> nat \<times> js_delta \<times> ConceptNetwork" where
  "run_loop config iteration totalDelta net =
     (if real iteration < cfg_maxIterations config
         \<and> delta_gt totalDelta (cfg_convergenceThreshold config)
      then run_loop config (iteration + 1)
             (Delta (r_totalDelta (fst (spreadActivation (Some (cfg_decayRate config)) net))))
             (snd (spreadActivation (Some (cfg_decayRate config)) net))
      else (iteration, totalDelta, net))"
  by pat_completeness auto
termination
  by (relation "measure (\<lambda>(config, iteration, totalDelta, net).
                  nat \<lceil>cfg_maxIterations config\<rceil> - iteration)") (auto, linarith)

declare run_loop.simps [simp del]

definition runUntilConvergence ::
  "run_options \<Rightarrow> ConceptNetwork \<Rightarrow> run_result \<times> ConceptNetwork" where
  "runUntilConvergence options net =
     (let config = run_config_of options (params net) in
      case run_loop config 0 Infinity net of
        (iteration, totalDelta, net1) \<Rightarrow>
          (\<lparr>converged = delta_le totalDelta (cfg_convergenceThreshold config),
            iterations = iteration, finalDelta = totalDelta\<rparr>, net1))"

subsection \<open>Analysis\<close>

text \<open>
  The analysis methods are written as the other methods are, returning their result
  together with the state of the receiver after the call.
  \<^verbatim>\<open>Array.prototype.sort\<close> is stable; with the comparator
  \<^verbatim>\<open>(a, b) => b.activation - a.activation\<close> it is the stable sort on the key
  \<open>- activation\<close>. \<^verbatim>\<open>limit\<close> is an integer; \<^verbatim>\<open>slice(0, limit)\<close> keeps the first
  \<^verbatim>\<open>limit\<close> elements, and for a negative \<^verbatim>\<open>limit\<close> all but the last \<^verbatim>\<open>-limit\<close>.
\<close>

definition slice_to :: "int \<Rightarrow> 'a list \<Rightarrow> 'a list" where
  "slice_to e xs =
     (if e < 0 then take (nat (int (length xs) + e)) xs else take (nat e) xs)"

definition info_of :: "concept_id \<Rightarrow> ConceptNode \<Rightarrow> concept_info" where
  "info_of i node =
     \<lparr>c_id = i, c_label = label node, c_activation = activation node,
      c_category = category node\<rparr>"

definition getTopActivatedConcepts ::
  "int option \<Rightarrow> real option \<Rightarrow> ConceptNetwork \<Rightarrow> concept_info list \<times> ConceptNetwork" where
  "getTopActivatedConcepts limit threshold net =
     (let l = (case limit of None \<Rightarrow> 10 | Some n \<Rightarrow> n);
          actualThreshold =
            (case threshold of None \<Rightarrow> activationThreshold (params net) | Some t \<Rightarrow> t)
      in (map (\<lambda>node. info_of (node_id node) node)
            (slice_to l
              (sort_key (\<lambda>node. - activation node)
                (filter (\<lambda>node. activation node \<ge> actualThreshold) (map snd (nodes net))))),
          net))"

record pattern =
  patternId :: string
  concepts :: "concept_info list"
  averageActivation :: real

text \<open>
  The inner \<^verbatim>\<open>while (queue.length > 0)\<close> loop of \<^verbatim>\<open>identifyEmergentPatterns\<close>.
  Reading \<^verbatim>\<open>currentNode.activation\<close> of an id that is not in the graph throws.
\<close>

function bfs ::
  "(concept_id \<times> ConceptNode) list \<Rightarrow> real \<Rightarrow> concept_id list \<Rightarrow> concept_id set
     \<Rightarrow> concept_info list \<Rightarrow> error + (concept_id set \<times> concept_info list)" where
  "bfs ns thr [] visited pat = Inr (visited, pat)"
| "bfs ns thr (currentId # queue) visited pat =
     (if currentId \<in> visited then bfs ns thr queue visited pat
      else
        case map_of ns currentId of
          None \<Rightarrow> Inl TypeError
        | Some currentNode \<Rightarrow>
            if activation currentNode \<ge> thr
            then bfs ns thr
                   (queue @
                    map fst (filter (\<lambda>(connectedId, weight).
                                       connectedId \<notin> insert currentId visited \<and>
                                       (case map_of ns connectedId of
                                          None \<Rightarrow> False
                                        | Some connectedNode \<Rightarrow>
                                            activation connectedNode \<ge> thr))
                               (connections currentNode)))
                   (insert currentId visited)
                   (pat @ [info_of currentId currentNode])
            else bfs ns thr queue (insert currentId visited) pat)"
  by pat_completeness auto
termination
proof (relation "measures [\<lambda>(ns, thr, queue, visited, pat). card (fst ` set ns - visited),
                            \<lambda>(ns, thr, queue, visited, pat). length queue]")
  show "wf (measures [\<lambda>(ns, thr, queue, visited, pat). card (fst ` set ns - visited),
                       \<lambda>(ns, thr, queue, visited, pat). length queue])"
    by simp
next
  fix ns :: "(concept_id \<times> ConceptNode) list" and thr :: real and currentId queue
    and visited :: "concept_id set" and pat :: "concept_info list"
  assume "currentId \<in> visited"
  then show "((ns, thr, queue, visited, pat), (ns, thr, currentId # queue, visited, pat))
      \<in> measures [\<lambda>(ns, thr, queue, visited, pat). card (fst ` set ns - visited),
                   \<lambda>(ns, thr, queue, visited, pat). length queue]"
    by simp
next
  fix ns :: "(concept_id \<times> ConceptNode) list" and thr :: real and currentId queue
    and visited :: "concept_id set" and pat :: "concept_info list" and x2 q'
  assume a: "currentId \<notin> visited" "map_of ns currentId = Some x2"
  have "currentId \<in> fst ` set ns"
    using a(2) by (metis domI dom_map_of_conv_image_fst)
  then have "card (fst ` set ns - insert currentId visited) < card (fst ` set ns - visited)"
    using a(1) by (intro psubset_card_mono) auto
  then show "((ns, thr, q', insert currentId visited, pat @ [info_of currentId x2]),
              (ns, thr, currentId # queue, visited, pat))
      \<in> measures [\<lambda>(ns, thr, queue, visited, pat). card (fst ` set ns - visited),
                   \<lambda>(ns, thr, queue, visited, pat). length queue]"
    by simp
next
  fix ns :: "(concept_id \<times> ConceptNode) list" and thr :: real and currentId queue
    and visited :: "concept_id set" and pat :: "concept_info list" and x2
  assume a: "currentId \<notin> visited" "map_of ns currentId = Some x2"
  have "currentId \<in> fst ` set ns"
    using a(2) by (metis domI dom_map_of_conv_image_fst)
  then have "card (fst ` set ns - insert currentId visited) < card (fst ` set ns - visited)"
    using a(1) by (intro psubset_card_mono) auto
  then show "((ns, thr, queue, insert currentId visited, pat),
              (ns, thr, currentId # queue, visited, pat))
      \<in> measures [\<lambda>(ns, thr, queue, visited, pat). card (fst ` set ns - visited),
                   \<lambda>(ns, thr, queue, visited, pat). length queue]"
    by simp
qed

text \<open>
  The outer \<^verbatim>\<open>for (const node of activeNodes)\<close> loop. \<open>uuids k\<close> is the identifier that
  the \<open>k\<close>-th call of \<^verbatim>\<open>uuidv4()\<close> in this invocation returns.
\<close>

fun patterns_loop ::
  "(concept_id \<times> ConceptNode) list \<Rightarrow> real \<Rightarrow> (nat \<Rightarrow> string) \<Rightarrow> ConceptNode list
     \<Rightarrow> concept_id set \<Rightarrow> pattern list \<Rightarrow> error + pattern list" where
  "patterns_loop ns thr uuids [] visited patterns = Inr patterns"
| "patterns_loop ns thr uuids (node # activeNodes) visited patterns =
     (if node_id node \<in> visited then patterns_loop ns thr uuids activeNodes visited patterns
      else
        case bfs ns thr [node_id node] visited [] of
          Inl e \<Rightarrow> Inl e
        | Inr (visited1, pat) \<Rightarrow>
            patterns_loop ns thr uuids activeNodes visited1
              (if length pat > 0
               then patterns @
                      [\<lparr>patternId = uuids (length patterns), concepts = pat,
                        averageActivation =
                          foldl (\<lambda>sum n. sum + c_activation n) 0 pat / real (length pat)\<rparr>]
               else patterns))"

definition identifyEmergentPatterns ::
  "(nat \<Rightarrow> string) \<Rightarrow> real option \<Rightarrow> ConceptNetwork
     \<Rightarrow> (error + pattern list) \<times> ConceptNetwork" where
  "identifyEmergentPatterns uuids threshold net =
     (let actualThreshold =
            (case threshold of None \<Rightarrow> activationThreshold (params net) | Some t \<Rightarrow> t);
          activeNodes = filter (\<lambda>node. activation node \<ge> actualThreshold)
                          (map snd (nodes net))
      in case patterns_loop (nodes net) actualThreshold uuids activeNodes {} [] of
           Inl e \<Rightarrow> (Inl e, net)
         | Inr patterns \<Rightarrow>
             (Inr (sort_key (\<lambda>p. - averageActivation p) patterns), net))"

record network_size =
  conceptCount :: nat
  connectionCount :: nat

definition getNetworkSize :: "ConceptNetwork \<Rightarrow> network_size \<times> ConceptNetwork" where
  "getNetworkSize net =
     (\<lparr>conceptCount = length (nodes net),
       connectionCount =
         foldl (\<lambda>sum node. sum + length (connections node)) 0 (map snd (nodes net))\<rparr>,
      net)"

record summary =
  s_iterationCount :: nat
  topActivatedConcepts :: "concept_info list"
  emergentPatterns :: "pattern list"
  networkSize :: network_size

definition generateSummary ::
  "(nat \<Rightarrow> string) \<Rightarrow> ConceptNetwork \<Rightarrow> (error + summary) \<times> ConceptNetwork" where
  "generateSummary uuids net =
     (case getTopActivatedConcepts (Some 5) None net of
        (topConcepts, net1) \<Rightarrow>
          (case identifyEmergentPatterns uuids None net1 of
             (Inl e, net2) \<Rightarrow> (Inl e, net2)
           | (Inr patterns, net2) \<Rightarrow>
               (case getNetworkSize net2 of
                  (sz, net3) \<Rightarrow>
                    (Inr \<lparr>s_iterationCount = iterationCount net2,
                          topActivatedConcepts = topConcepts,
                          emergentPatterns = patterns,
                          networkSize = sz\<rparr>, net3))))"

subsection \<open>Observations and example graphs used to state the properties\<close>

text \<open>The weight stored for the directed edge from \<open>a\<close> to \<open>b\<close>, if there is one.\<close>

definition edge_weight :: "ConceptNetwork \<Rightarrow> concept_id \<Rightarrow> concept_id \<Rightarrow> real option" where
  "edge_weight net a b =
     (case map_of (nodes net) a of None \<Rightarrow> None | Some n \<Rightarrow> map_of (connections n) b)"

text \<open>The activation and the previous activation stored for an id, if it is in the graph.\<close>

definition activation_at :: "ConceptNetwork \<Rightarrow> concept_id \<Rightarrow> real option" where
  "activation_at net k = map_option activation (map_of (nodes net) k)"

definition prevActivation_at :: "ConceptNetwork \<Rightarrow> concept_id \<Rightarrow> real option" where
  "prevActivation_at net k = map_option prevActivation (map_of (nodes net) k)"

text \<open>
  The weighted input of a node, summed over its own outgoing edges whose target exists;
  all activations are read from the given graph state.
\<close>

definition incoming_sum :: "ConceptNetwork \<Rightarrow> ConceptNode \<Rightarrow> real" where
  "incoming_sum net n =
     (\<Sum>(targetId, w) \<leftarrow> filter (\<lambda>(targetId, w). map_has (nodes net) targetId) (connections n).
        the (activation_at net targetId) * w)"

text \<open>
  The graph of the first scenario: concepts A and B joined in both directions with
  weight 0.8; \<open>net_AB0\<close> as built, \<open>net_AB1\<close> after seeding A with 1 and B with 0.
\<close>

definition net_AB0 :: ConceptNetwork where
  "net_AB0 =
     \<lparr>nodes =
        [(''A'', \<lparr>node_id = ''A'', label = ''a'', category = None,
                  connections = [(''B'', 0.8)], activation = 0, prevActivation = 0,
                  metadata = []\<rparr>),
         (''B'', \<lparr>node_id = ''B'', label = ''b'', category = None,
                  connections = [(''A'', 0.8)], activation = 0, prevActivation = 0,
                  metadata = []\<rparr>)],
      activationHistory = [], iterationCount = 0, params = default_params\<rparr>"

definition net_AB1 :: ConceptNetwork where
  "net_AB1 =
     \<lparr>nodes =
        [(''A'', \<lparr>node_id = ''A'', label = ''a'', category = None,
                  connections = [(''B'', 0.8)], activation = 1, prevActivation = 0,
                  metadata = []\<rparr>),
         (''B'', \<lparr>node_id = ''B'', label = ''b'', category = None,
                  connections = [(''A'', 0.8)], activation = 0, prevActivation = 0,
                  metadata = []\<rparr>)],
      activationHistory =
        [\<lparr>h_iteration = 0,
          h_activations =
            [\<lparr>c_id = ''A'', c_label = ''a'', c_activation = 1, c_category = None\<rparr>,
             \<lparr>c_id = ''B'', c_label = ''b'', c_activation = 0, c_category = None\<rparr>]\<rparr>],
      iterationCount = 1, params = default_params\<rparr>"

text \<open>
  The graph after \<open>k\<close> rounds of \<^verbatim>\<open>spreadActivation(d)\<close>, and the \<^verbatim>\<open>totalDelta\<close> that the
  \<open>k\<close>-th of these rounds returns (\<open>k\<close> counted from 1).
\<close>

primrec rounds :: "real \<Rightarrow> nat \<Rightarrow> ConceptNetwork \<Rightarrow> ConceptNetwork" where
  "rounds d 0 net = net"
| "rounds d (Suc k) net = snd (spreadActivation (Some d) (rounds d k net))"

definition delta_of_round :: "real \<Rightarrow> nat \<Rightarrow> ConceptNetwork \<Rightarrow> real" where
  "delta_of_round d k net =
     r_totalDelta (fst (spreadActivation (Some d) (rounds d (k - 1) net)))"

text \<open>
  Two concepts added in the order c1, c2 and in the order c2, c1, not yet seeded.
\<close>

definition net_c1c2 :: ConceptNetwork where
  "net_c1c2 =
     \<lparr>nodes = [(''c1'', new_ConceptNode ''c1'' ''x'' None),
               (''c2'', new_ConceptNode ''c2'' ''y'' None)],
      activationHistory = [], iterationCount = 0, params = default_params\<rparr>"

definition net_c2c1 :: ConceptNetwork where
  "net_c2c1 =
     \<lparr>nodes = [(''c2'', new_ConceptNode ''c2'' ''y'' None),
               (''c1'', new_ConceptNode ''c1'' ''x'' None)],
      activationHistory = [], iterationCount = 0, params = default_params\<rparr>"

text \<open>
  Notions for the pattern search. A node is active when it is in the graph with an
  activation of at least the threshold; an active edge leads from an active node along
  one of its own outgoing edges to an active node. A component is a nonempty set of
  active nodes that no active edge enters or leaves and in which every member reaches
  every member along active edges.
\<close>

definition is_active :: "(concept_id \<times> ConceptNode) list \<Rightarrow> real \<Rightarrow> concept_id \<Rightarrow> bool" where
  "is_active ns thr k =
     (case map_of ns k of None \<Rightarrow> False | Some n \<Rightarrow> activation n \<ge> thr)"

definition active_edges ::
  "(concept_id \<times> ConceptNode) list \<Rightarrow> real \<Rightarrow> (concept_id \<times> concept_id) set" where
  "active_edges ns thr =
     {(a, b). is_active ns thr a \<and> is_active ns thr b \<and>
              (\<exists>n. map_of ns a = Some n \<and> b \<in> fst ` set (connections n))}"

definition pattern_ids :: "pattern \<Rightarrow> concept_id list" where
  "pattern_ids p = map c_id (concepts p)"

definition component :: "(concept_id \<times> ConceptNode) list \<Rightarrow> real \<Rightarrow> concept_id set \<Rightarrow> bool" where
  "component ns thr S =
     (S \<noteq> {} \<and> S \<subseteq> {k. is_active ns thr k} \<and>
      (\<forall>(a, b) \<in> active_edges ns thr. a \<in> S \<longleftrightarrow> b \<in> S) \<and>
      (\<forall>a \<in> S. \<forall>b \<in> S. (a, b) \<in> (active_edges ns thr)\<^sup>*))"

text \<open>
  The invariant of the outer loop of \<^verbatim>\<open>identifyEmergentPatterns\<close>: the patterns found
  so far are pairwise different and disjoint, each is a nonempty duplicate-free list of
  snapshots of active nodes that are all reachable from one of them and carries their
  mean activation, and every component is either untouched or exactly one pattern.
\<close>

definition pattern_ok :: "(concept_id \<times> ConceptNode) list \<Rightarrow> real \<Rightarrow> pattern \<Rightarrow> bool" where
  "pattern_ok ns thr p =
     (pattern_ids p \<noteq> [] \<and> distinct (pattern_ids p) \<and>
      (\<forall>c \<in> set (concepts p).
         \<exists>n. map_of ns (c_id c) = Some n \<and> activation n \<ge> thr \<and> c = info_of (c_id c) n) \<and>
      averageActivation p =
        sum_list (map c_activation (concepts p)) / real (length (concepts p)) \<and>
      (\<exists>r \<in> set (pattern_ids p).
         \<forall>x \<in> set (pattern_ids p). (r, x) \<in> (active_edges ns thr)\<^sup>*))"

definition patterns_cover :: "pattern list \<Rightarrow> concept_id set" where
  "patterns_cover ps = (\<Union>p \<in> set ps. set (pattern_ids p))"

definition patterns_inv ::
  "(concept_id \<times> ConceptNode) list \<Rightarrow> real \<Rightarrow> pattern list \<Rightarrow> bool" where
  "patterns_inv ns thr ps =
     (distinct ps \<and>
      (\<forall>p \<in> set ps. pattern_ok ns thr p) \<and>
      (\<forall>p \<in> set ps. \<forall>q \<in> set ps.
         p \<noteq> q \<longrightarrow> set (pattern_ids p) \<inter> set (pattern_ids q) = {}) \<and>
      (\<forall>S. component ns thr S \<longrightarrow>
            S \<inter> patterns_cover ps = {} \<or> (\<exists>p \<in> set ps. set (pattern_ids p) = S)))"

text \<open>
  A supply of pattern identifiers, and a graph with a one-way edge: b was added first and
  points to a, a has no outgoing edge, both are seeded with 1.
\<close>

definition uuid_p :: "nat \<Rightarrow> string" where
  "uuid_p k = ''p''"

definition net_ba :: ConceptNetwork where
  "net_ba =
     \<lparr>nodes =
        [(''b'', \<lparr>node_id = ''b'', label = ''y'', category = None,
                  connections = [(''a'', 0.5)], activation = 1, prevActivation = 0,
                  metadata = []\<rparr>),
         (''a'', \<lparr>node_id = ''a'', label = ''x'', category = None,
                  connections = [], activation = 1, prevActivation = 0,
                  metadata = []\<rparr>)],
      activationHistory =
        [\<lparr>h_iteration = 0,
          h_activations =
            [\<lparr>c_id = ''b'', c_label = ''y'', c_activation = 1, c_category = None\<rparr>,
             \<lparr>c_id = ''a'', c_label = ''x'', c_activation = 1, c_category = None\<rparr>]\<rparr>],
      iterationCount = 1, params = default_params\<rparr>"

subsection \<open>Double precision\<close>

text \<open>
  A JavaScript number is an IEEE 754 binary64 value, and every arithmetic operation
  returns the exact result rounded to the nearest representable value, ties to the even
  significand, or an infinity when the rounded value exceeds the largest finite one.
  Finite doubles are real numbers here; \<open>fl_round\<close> rounds a real to the binary64 grid
  (53 significant bits, spacing \<open>2 ^ -1074\<close> below \<open>2 ^ -1022\<close>) and \<open>to_double\<close> gives
  \<^const>\<open>None\<close> where the result is not a finite number (an infinity, or \<^verbatim>\<open>NaN\<close> for a
  division of zero by zero). The two zeros are not distinguished. \<^verbatim>\<open>Math.exp\<close>, which
  the language leaves implementation-approximated, is taken as the correctly rounded
  exponential.
\<close>

definition pow2 :: "int \<Rightarrow> real" where
  "pow2 k = 2 powr real_of_int k"

definition round_even :: "real \<Rightarrow> int" where
  "round_even r =
     (if r - of_int \<lfloor>r\<rfloor> < 1 / 2 then \<lfloor>r\<rfloor>
      else if 1 / 2 < r - of_int \<lfloor>r\<rfloor> then \<lfloor>r\<rfloor> + 1
      else if even \<lfloor>r\<rfloor> then \<lfloor>r\<rfloor> else \<lfloor>r\<rfloor> + 1)"

definition ulp :: "real \<Rightarrow> real" where
  "ulp x = pow2 (max \<lfloor>log 2 \<bar>x\<bar>\<rfloor> (- 1022) - 52)"

definition fl_round :: "real \<Rightarrow> real" where
  "fl_round x =
     (if x = 0 then 0 else sgn x * (ulp x * of_int (round_even (\<bar>x\<bar> / ulp x))))"

definition max_double :: real where
  "max_double = 2 ^ 1024 - 2 ^ 971"

definition to_double :: "real \<Rightarrow> real option" where
  "to_double x = (if \<bar>fl_round x\<bar> \<le> max_double then Some (fl_round x) else None)"

definition dadd :: "real \<Rightarrow> real \<Rightarrow> real option" where
  "dadd x y = to_double (x + y)"



definition ddiv :: "real \<Rightarrow> real \<Rightarrow> real option" where
  "ddiv x y = (if y = 0 then None else to_double (x / y))"

definition dexp :: "real \<Rightarrow> real option" where
  "dexp x = to_double (exp x)"

text \<open>
  \<^verbatim>\<open>sigmoid(x)\<close>, that is \<^verbatim>\<open>1 / (1 + Math.exp(-x))\<close>, on a finite \<open>x\<close>: when \<^verbatim>\<open>Math.exp\<close>
  overflows to \<^verbatim>\<open>Infinity\<close> the sum is \<^verbatim>\<open>Infinity\<close> and the quotient is 0.
\<close>

definition sigmoid_double :: "real \<Rightarrow> real option" where
  "sigmoid_double x =
     (case dexp (- x) of
        None \<Rightarrow> Some 0
      | Some e \<Rightarrow> (case dadd 1 e of None \<Rightarrow> Some 0 | Some s \<Rightarrow> ddiv 1 s))"





text \<open>
  A single concept seeded with 100, the graph after one double-precision round with
  decay rate 0, and a single concept seeded with 0.5.
\<close>

definition net_100 :: ConceptNetwork where
  "net_100 =
     \<lparr>nodes =
        [(''n'', \<lparr>node_id = ''n'', label = ''x'', category = None, connections = [],
                  activation = 100, prevActivation = 0, metadata = []\<rparr>)],
      activationHistory =
        [\<lparr>h_iteration = 0,
          h_activations =
            [\<lparr>c_id = ''n'', c_label = ''x'', c_activation = 100, c_category = None\<rparr>]\<rparr>],
      iterationCount = 1, params = default_params\<rparr>"


definition net_half :: ConceptNetwork where
  "net_half =
     \<lparr>nodes =
        [(''n'', \<lparr>node_id = ''n'', label = ''x'', category = None, connections = [],
                  activation = 0.5, prevActivation = 0, metadata = []\<rparr>)],
      activationHistory =
        [\<lparr>h_iteration = 0,
          h_activations =
            [\<lparr>c_id = ''n'', c_label = ''x'', c_activation = 0.5, c_category = None\<rparr>]\<rparr>],
      iterationCount = 1, params = default_params\<rparr>"

section \<open>Properties\<close>

subsection \<open>Association lists as maps\<close>

lemma map_has_iff: "map_has m k \<longleftrightarrow> k \<in> fst ` set m"
  by (simp add: map_has_def map_of_eq_None_iff)

lemma delete_filter: "AList.delete k xs = filter (\<lambda>p. fst p \<noteq> k) xs"
  by (induction xs) (auto simp: AList.delete_eq)

lemma map_fst_map_entry: "map fst (AList.map_entry k f xs) = map fst xs"
  by (induction xs) auto

subsection \<open>removeConcept\<close>

lemma removeConcept_nodes:
  "map_has (nodes net) x \<Longrightarrow>
   nodes (snd (removeConcept x net)) =
     map (\<lambda>(k, n). (k, n\<lparr>connections := filter (\<lambda>e. fst e \<noteq> x) (connections n)\<rparr>))
       (filter (\<lambda>p. fst p \<noteq> x) (nodes net))"
  by (simp add: removeConcept_def Let_def node_removeConnection_def delete_filter
        filter_map comp_def case_prod_beta)

text \<open>
  C6. \<^verbatim>\<open>removeConcept(x)\<close> returns false and leaves the graph as it is when \<open>x\<close> is
  absent. Otherwise it returns true, the node \<open>x\<close> is gone, every remaining node keeps
  exactly its outgoing edges whose target is not \<open>x\<close>, so no remaining node has an edge
  to \<open>x\<close>; history, round counter and parameters are untouched.
\<close>

theorem removeConcept_cascade:
  "(\<not> map_has (nodes net) x \<longrightarrow> removeConcept x net = (False, net)) \<and>
   (map_has (nodes net) x \<longrightarrow>
      fst (removeConcept x net) = True \<and>
      nodes (snd (removeConcept x net)) =
        map (\<lambda>(k, n). (k, n\<lparr>connections := filter (\<lambda>e. fst e \<noteq> x) (connections n)\<rparr>))
          (filter (\<lambda>p. fst p \<noteq> x) (nodes net)) \<and>
      \<not> map_has (nodes (snd (removeConcept x net))) x \<and>
      (\<forall>(k, n) \<in> set (nodes (snd (removeConcept x net))).
          x \<notin> fst ` set (connections n)) \<and>
      activationHistory (snd (removeConcept x net)) = activationHistory net \<and>
      iterationCount (snd (removeConcept x net)) = iterationCount net \<and>
      params (snd (removeConcept x net)) = params net)"
proof (intro conjI impI)
  show "\<not> map_has (nodes net) x \<Longrightarrow> removeConcept x net = (False, net)"
    by (simp add: removeConcept_def)
next
  assume h: "map_has (nodes net) x"
  show "fst (removeConcept x net) = True"
    using h by (auto simp: removeConcept_def Let_def map_has_iff node_removeConnection_def
        image_iff split: prod.splits)
  show n: "nodes (snd (removeConcept x net)) =
        map (\<lambda>(k, n). (k, n\<lparr>connections := filter (\<lambda>e. fst e \<noteq> x) (connections n)\<rparr>))
          (filter (\<lambda>p. fst p \<noteq> x) (nodes net))"
    using h by (rule removeConcept_nodes)
  show "\<not> map_has (nodes (snd (removeConcept x net))) x"
    unfolding n by (auto simp: map_has_iff)
  show "\<forall>(k, n) \<in> set (nodes (snd (removeConcept x net))). x \<notin> fst ` set (connections n)"
    unfolding n by auto
  show "activationHistory (snd (removeConcept x net)) = activationHistory net"
    "iterationCount (snd (removeConcept x net)) = iterationCount net"
    "params (snd (removeConcept x net)) = params net"
    using h by (simp_all add: removeConcept_def Let_def)
qed

theorem removeConcept_cascade_witness:
  "map_has (nodes net_AB1) ''A'' \<and> \<not> map_has (nodes net_AB1) ''C'' \<and>
   removeConcept ''C'' net_AB1 = (False, net_AB1) \<and>
   fst (removeConcept ''A'' net_AB1) = True \<and>
   nodes (snd (removeConcept ''A'' net_AB1)) =
     [(''B'', \<lparr>node_id = ''B'', label = ''b'', category = None, connections = [],
               activation = 0, prevActivation = 0, metadata = []\<rparr>)]"
proof -
  have h: "map_has (nodes net_AB1) ''A''" "\<not> map_has (nodes net_AB1) ''C''"
    by (simp_all add: net_AB1_def map_has_def)
  show ?thesis
    using removeConcept_cascade[of net_AB1 "''A''"] removeConcept_cascade[of net_AB1 "''C''"] h
    by (simp add: net_AB1_def)
qed

subsection \<open>addConnection\<close>





subsection \<open>spreadActivation\<close>

lemma build_AB0:
  "(case addConcept ''a'' None (Some ''A'') u new_ConceptNetwork of
      Inl e \<Rightarrow> Inl e
    | Inr (i1, n1) \<Rightarrow>
       (case addConcept ''b'' None (Some ''B'') u n1 of
          Inl e \<Rightarrow> Inl e
        | Inr (i2, n2) \<Rightarrow> addConnection i1 i2 (Some 0.8) (Some True) n2)) = Inr net_AB0"
  by (simp add: addConcept_def new_ConceptNetwork_def map_has_def new_ConceptNode_def
      addConnection_def getConcept_def node_addConnection_def net_AB0_def Let_def)

lemma seed_AB1: "setInitialActivation (IdMap [(''A'', 1), (''B'', 0)]) None net_AB0 = net_AB1"
  by (simp add: setInitialActivation_def net_AB0_def net_AB1_def updateActivation_def
      map_has_def recordActivationState_def)

lemma update_fresh: "k \<notin> fst ` set al \<Longrightarrow> AList.update k v al = al @ [(k, v)]"
  by (induction al) auto

lemma fold_update_distinct:
  "distinct (map fst acc @ map fst xs) \<Longrightarrow>
   fold (\<lambda>(k, n) acc. AList.update k (g k n) acc) xs acc = acc @ map (\<lambda>(k, n). (k, g k n)) xs"
proof (induction xs arbitrary: acc)
  case Nil
  then show ?case by simp
next
  case (Cons x xs)
  obtain k n where x: "x = (k, n)" by (cases x)
  have fresh: "k \<notin> fst ` set acc" using Cons.prems x by auto
  have d: "distinct (map fst (acc @ [(k, g k n)]) @ map fst xs)"
    using Cons.prems x by auto
  show ?case
    using Cons.IH[OF d] by (simp add: x update_fresh[OF fresh])
qed

lemma newActivations_distinct:
  "distinct (map fst ns) \<Longrightarrow>
   newActivations d ns =
     map (\<lambda>(k, n). (k, sigmoid (activation n * (1 - d) + incomingActivation ns n))) ns"
  using fold_update_distinct[of "[]" ns "\<lambda>k n. sigmoid (activation n * (1 - d) + incomingActivation ns n)"]
  by (simp add: newActivations_def Let_def)

lemma map_entry_distinct:
  "distinct (map fst ns) \<Longrightarrow>
   AList.map_entry k f ns = map (\<lambda>(k', n). (k', if k' = k then f n else n)) ns"
proof (induction ns)
  case Nil
  then show ?case by simp
next
  case (Cons p ns)
  obtain k' n where p: "p = (k', n)" by (cases p)
  show ?case
  proof (cases "k' = k")
    case True
    then have "k \<notin> fst ` set ns" using Cons.prems p by auto
    then have "map (\<lambda>(k', n). (k', if k' = k then f n else n)) ns = ns"
      by (intro map_idI) (auto simp: image_iff)
    then show ?thesis using True p by simp
  next
    case False
    then show ?thesis using Cons p by simp
  qed
qed

lemma fold_commit:
  "distinct (map fst ys) \<Longrightarrow> distinct (map fst ns) \<Longrightarrow>
   fold (\<lambda>(k, a) ns. AList.map_entry k (h a) ns) ys ns =
     map (\<lambda>(k, n). (k, case map_of ys k of None \<Rightarrow> n | Some a \<Rightarrow> h a n)) ns"
proof (induction ys arbitrary: ns)
  case Nil
  then show ?case by simp
next
  case (Cons y ys)
  obtain k a where y: "y = (k, a)" by (cases y)
  have k: "map_of ys k = None" using Cons.prems(1) y by (simp add: map_of_eq_None_iff)
  have d: "distinct (map fst (AList.map_entry k (h a) ns))"
    using Cons.prems(2) by (simp add: map_fst_map_entry)
  have "fold (\<lambda>(k, a) ns. AList.map_entry k (h a) ns) (y # ys) ns =
        map (\<lambda>(k, n). (k, case map_of ys k of None \<Rightarrow> n | Some a \<Rightarrow> h a n))
          (AList.map_entry k (h a) ns)"
    using Cons.IH[OF _ d] Cons.prems(1) by (simp add: y)
  also have "\<dots> = map (\<lambda>(k, n). (k, case map_of (y # ys) k of None \<Rightarrow> n | Some a \<Rightarrow> h a n)) ns"
    using k by (auto simp: map_entry_distinct[OF Cons.prems(2)] y)
  finally show ?case .
qed

lemma map_of_map_values:
  "map_of (map (\<lambda>(k, n). (k, g k n)) ns) k = map_option (g k) (map_of ns k)"
  by (induction ns) auto

lemma spreadActivation_nodes_fold:
  assumes "distinct (map fst (nodes net))"
  shows "nodes (snd (spreadActivation (Some d) net)) =
     map (\<lambda>(k, n). (k, updateActivation
                          (sigmoid (activation n * (1 - d) + incomingActivation (nodes net) n)) n))
       (nodes net)"
proof -
  let ?g = "\<lambda>(k::concept_id) n. sigmoid (activation n * (1 - d) + incomingActivation (nodes net) n)"
  have na: "newActivations d (nodes net) = map (\<lambda>(k, n). (k, ?g k n)) (nodes net)"
    using newActivations_distinct[OF assms] by simp
  have dy: "distinct (map fst (newActivations d (nodes net)))"
    unfolding na using assms by (simp add: comp_def case_prod_beta)
  have "nodes (snd (spreadActivation (Some d) net)) =
        fold (\<lambda>(k, a) ns. AList.map_entry k (updateActivation a) ns)
          (newActivations d (nodes net)) (nodes net)"
    by (simp add: spreadActivation_def Let_def recordActivationState_def)
  also have "\<dots> = map (\<lambda>(k, n). (k, case map_of (newActivations d (nodes net)) k of
                                      None \<Rightarrow> n | Some a \<Rightarrow> updateActivation a n)) (nodes net)"
    by (rule fold_commit[OF dy assms])
  also have "\<dots> = map (\<lambda>(k, n). (k, updateActivation (?g k n) n)) (nodes net)"
  proof (rule map_cong[OF refl])
    fix p assume p: "p \<in> set (nodes net)"
    obtain k n where kn: "p = (k, n)" by (cases p)
    have "map_of (nodes net) k = Some n" using p kn assms by simp
    then have "map_of (newActivations d (nodes net)) k = Some (?g k n)"
      unfolding na by (simp add: map_of_map_values)
    then show "(case p of (k, n) \<Rightarrow> (k, case map_of (newActivations d (nodes net)) k of
                                      None \<Rightarrow> n | Some a \<Rightarrow> updateActivation a n)) =
               (case p of (k, n) \<Rightarrow> (k, updateActivation (?g k n) n))"
      by (simp add: kn)
  qed
  finally show ?thesis by simp
qed

lemma fold_incoming:
  "fold (\<lambda>(c, w) s. case map_of (nodes net) c of
                       None \<Rightarrow> s | Some cn \<Rightarrow> s + activation cn * w) cs s0 =
   s0 + (\<Sum>(c, w) \<leftarrow> filter (\<lambda>(c, w). map_has (nodes net) c) cs.
           the (activation_at net c) * w)"
  by (induction cs arbitrary: s0)
    (auto simp: map_has_def activation_at_def split: option.splits)

lemma incomingActivation_sum: "incomingActivation (nodes net) n = incoming_sum net n"
  by (simp add: incomingActivation_def incoming_sum_def fold_incoming)


lemma spreadActivation_nodes:
  assumes "distinct (map fst (nodes net))"
  shows "nodes (snd (spreadActivation (Some d) net)) =
     map (\<lambda>(k, n). (k, n\<lparr>prevActivation := activation n,
                           activation := sigmoid (activation n * (1 - d) + incoming_sum net n)\<rparr>))
       (nodes net)"
  by (simp add: spreadActivation_nodes_fold[OF assms] incomingActivation_sum updateActivation_def)

text \<open>
  C1. In a graph whose ids are distinct, one call \<^verbatim>\<open>spreadActivation(d)\<close> replaces every
  node \<open>n\<close> by the same node with \<open>prevActivation\<close> set to the activation it had
  before the round and \<open>activation\<close> set to
  \<open>sigmoid (activation n * (1 - d) + incoming_sum net n)\<close>, where the sum ranges over
  the node's own outgoing edges whose target is in the graph and reads every
  activation from the graph before the round. For the graph of the first scenario
  (built by \<^verbatim>\<open>addConcept\<close>, \<^verbatim>\<open>addConnection\<close> with weight 0.8 in both directions, seeded
  with A = 1 and B = 0) one round with decay rate 0.1 gives A = sigmoid 0.9 and
  B = sigmoid 0.8.
\<close>

theorem spreadActivation_round:
  "(wf_network net \<longrightarrow>
      nodes (snd (spreadActivation (Some d) net)) =
        map (\<lambda>(k, n). (k, n\<lparr>prevActivation := activation n,
                              activation :=
                                sigmoid (activation n * (1 - d) + incoming_sum net n)\<rparr>))
          (nodes net) \<and>
      (\<forall>(k, n) \<in> set (nodes net).
          activation_at net k = Some (activation n) \<and>
          activation_at (snd (spreadActivation (Some d) net)) k =
            Some (sigmoid (activation n * (1 - d) + incoming_sum net n)) \<and>
          prevActivation_at (snd (spreadActivation (Some d) net)) k = Some (activation n))) \<and>
   (case addConcept ''a'' None (Some ''A'') u new_ConceptNetwork of
      Inl e \<Rightarrow> Inl e
    | Inr (i1, n1) \<Rightarrow>
       (case addConcept ''b'' None (Some ''B'') u n1 of
          Inl e \<Rightarrow> Inl e
        | Inr (i2, n2) \<Rightarrow> addConnection i1 i2 (Some 0.8) (Some True) n2)) = Inr net_AB0 \<and>
   setInitialActivation (IdMap [(''A'', 1), (''B'', 0)]) None net_AB0 = net_AB1 \<and>
   activation_at (snd (spreadActivation (Some 0.1) net_AB1)) ''A'' = Some (sigmoid 0.9) \<and>
   activation_at (snd (spreadActivation (Some 0.1) net_AB1)) ''B'' = Some (sigmoid 0.8)"
proof (intro conjI impI)
  assume wf: "wf_network net"
  then have d: "distinct (map fst (nodes net))" by (simp add: wf_network_def wf_nodes_def)
  show n: "nodes (snd (spreadActivation (Some d) net)) =
        map (\<lambda>(k, n). (k, n\<lparr>prevActivation := activation n,
                              activation :=
                                sigmoid (activation n * (1 - d) + incoming_sum net n)\<rparr>))
          (nodes net)"
    by (rule spreadActivation_nodes[OF d])
  show "\<forall>(k, n) \<in> set (nodes net).
          activation_at net k = Some (activation n) \<and>
          activation_at (snd (spreadActivation (Some d) net)) k =
            Some (sigmoid (activation n * (1 - d) + incoming_sum net n)) \<and>
          prevActivation_at (snd (spreadActivation (Some d) net)) k = Some (activation n)"
    using d by (auto simp: activation_at_def prevActivation_at_def n map_of_map_values)
next
  show "(case addConcept ''a'' None (Some ''A'') u new_ConceptNetwork of
      Inl e \<Rightarrow> Inl e
    | Inr (i1, n1) \<Rightarrow>
       (case addConcept ''b'' None (Some ''B'') u n1 of
          Inl e \<Rightarrow> Inl e
        | Inr (i2, n2) \<Rightarrow> addConnection i1 i2 (Some 0.8) (Some True) n2)) = Inr net_AB0"
    by (rule build_AB0)
  show "setInitialActivation (IdMap [(''A'', 1), (''B'', 0)]) None net_AB0 = net_AB1"
    by (rule seed_AB1)
  have d: "distinct (map fst (nodes net_AB1))" by (simp add: net_AB1_def)
  show "activation_at (snd (spreadActivation (Some 0.1) net_AB1)) ''A'' = Some (sigmoid 0.9)"
    unfolding activation_at_def spreadActivation_nodes[OF d]
    by (simp add: net_AB1_def incoming_sum_def map_has_def activation_at_def)
  show "activation_at (snd (spreadActivation (Some 0.1) net_AB1)) ''B'' = Some (sigmoid 0.8)"
    unfolding activation_at_def spreadActivation_nodes[OF d]
    by (simp add: net_AB1_def incoming_sum_def map_has_def activation_at_def)
qed

theorem spreadActivation_round_witness:
  "wf_network net_AB1 \<and>
   nodes (snd (spreadActivation (Some 0.1) net_AB1)) =
     [(''A'', \<lparr>node_id = ''A'', label = ''a'', category = None,
               connections = [(''B'', 0.8)], activation = sigmoid 0.9, prevActivation = 1,
               metadata = []\<rparr>),
      (''B'', \<lparr>node_id = ''B'', label = ''b'', category = None,
               connections = [(''A'', 0.8)], activation = sigmoid 0.8, prevActivation = 0,
               metadata = []\<rparr>)]"
proof -
  have wf: "wf_network net_AB1" by (simp add: wf_network_def wf_nodes_def net_AB1_def)
  have "nodes (snd (spreadActivation (Some 0.1) net_AB1)) =
        map (\<lambda>(k, n). (k, n\<lparr>prevActivation := activation n,
                              activation :=
                                sigmoid (activation n * (1 - 0.1) + incoming_sum net_AB1 n)\<rparr>))
          (nodes net_AB1)"
    using spreadActivation_round[of net_AB1 "0.1"] wf by blast
  then show ?thesis
    using wf by (simp add: net_AB1_def incoming_sum_def map_has_def activation_at_def)
qed

subsection \<open>Options of runUntilConvergence\<close>

lemma sigmoid_inj: "sigmoid x = sigmoid y \<Longrightarrow> x = y"
proof -
  assume "sigmoid x = sigmoid y"
  moreover have "1 + exp (- x) > 0" "1 + exp (- y) > 0"
    by (simp_all add: add_pos_pos)
  ultimately have "1 + exp (- x) = 1 + exp (- y)"
    by (simp add: sigmoid_def field_simps)
  then show "x = y" by simp
qed

lemma run_loop_stop:
  "\<not> (real i < cfg_maxIterations cfg \<and> delta_gt dl (cfg_convergenceThreshold cfg)) \<Longrightarrow>
   run_loop cfg i dl net = (i, dl, net)"
  by (subst run_loop.simps) auto

lemma run_loop_step:
  "real i < cfg_maxIterations cfg \<Longrightarrow> delta_gt dl (cfg_convergenceThreshold cfg) \<Longrightarrow>
   run_loop cfg i dl net =
     run_loop cfg (Suc i)
       (Delta (r_totalDelta (fst (spreadActivation (Some (cfg_decayRate cfg)) net))))
       (snd (spreadActivation (Some (cfg_decayRate cfg)) net))"
  by (subst run_loop.simps) simp

text \<open>
  C4. \<^verbatim>\<open>runUntilConvergence\<close> merges its options with \<^verbatim>\<open>||\<close>, so a supplied 0 is
  replaced by the configured default: with \<^verbatim>\<open>{maxIterations: 1, decayRate: 0}\<close> on the
  seeded scenario graph the round runs with decay rate 0.1 and A becomes sigmoid 0.9,
  whereas \<^verbatim>\<open>spreadActivation(0)\<close>, which tests its argument against \<^verbatim>\<open>null\<close>, uses 0
  and gives sigmoid 1. A supplied convergence threshold 0 is replaced by 0.01 in the
  same way.
\<close>

theorem runUntilConvergence_zero_option_replaced:
  "run_config_of \<lparr>opt_maxIterations = Some 1, opt_convergenceThreshold = Some 0,
                  opt_decayRate = Some 0\<rparr> default_params =
     \<lparr>cfg_maxIterations = 1, cfg_convergenceThreshold = 0.01, cfg_decayRate = 0.1\<rparr> \<and>
   activation_at
     (snd (runUntilConvergence
             \<lparr>opt_maxIterations = Some 1, opt_convergenceThreshold = None,
              opt_decayRate = Some 0\<rparr> net_AB1)) ''A'' = Some (sigmoid 0.9) \<and>
   activation_at (snd (spreadActivation (Some 0) net_AB1)) ''A'' = Some (sigmoid 1) \<and>
   sigmoid 0.9 \<noteq> sigmoid 1"
proof (intro conjI)
  show "run_config_of \<lparr>opt_maxIterations = Some 1, opt_convergenceThreshold = Some 0,
                  opt_decayRate = Some 0\<rparr> default_params =
     \<lparr>cfg_maxIterations = 1, cfg_convergenceThreshold = 0.01, cfg_decayRate = 0.1\<rparr>"
    by (simp add: run_config_of_def js_or_def default_params_def)
  have d: "distinct (map fst (nodes net_AB1))" by (simp add: net_AB1_def)
  let ?cfg = "\<lparr>cfg_maxIterations = 1, cfg_convergenceThreshold = 0.01, cfg_decayRate = 0.1\<rparr>"
  have c: "run_config_of \<lparr>opt_maxIterations = Some 1, opt_convergenceThreshold = None,
              opt_decayRate = Some 0\<rparr> (params net_AB1) = ?cfg"
    by (simp add: run_config_of_def js_or_def default_params_def net_AB1_def)
  have "run_loop ?cfg 0 Infinity net_AB1 =
        run_loop ?cfg (Suc 0)
          (Delta (r_totalDelta (fst (spreadActivation (Some 0.1) net_AB1))))
          (snd (spreadActivation (Some 0.1) net_AB1))"
    using run_loop_step[of 0 ?cfg Infinity net_AB1] by simp
  also have "\<dots> = (Suc 0, Delta (r_totalDelta (fst (spreadActivation (Some 0.1) net_AB1))),
                    snd (spreadActivation (Some 0.1) net_AB1))"
    by (rule run_loop_stop) simp
  finally have eq: "snd (runUntilConvergence
             \<lparr>opt_maxIterations = Some 1, opt_convergenceThreshold = None,
              opt_decayRate = Some 0\<rparr> net_AB1) = snd (spreadActivation (Some 0.1) net_AB1)"
    by (simp add: runUntilConvergence_def c)
  show "activation_at
     (snd (runUntilConvergence
             \<lparr>opt_maxIterations = Some 1, opt_convergenceThreshold = None,
              opt_decayRate = Some 0\<rparr> net_AB1)) ''A'' = Some (sigmoid 0.9)"
    unfolding eq activation_at_def spreadActivation_nodes[OF d]
    by (simp add: net_AB1_def incoming_sum_def map_has_def activation_at_def)
  show "activation_at (snd (spreadActivation (Some 0) net_AB1)) ''A'' = Some (sigmoid 1)"
    unfolding activation_at_def spreadActivation_nodes[OF d]
    by (simp add: net_AB1_def incoming_sum_def map_has_def activation_at_def)
  show "sigmoid 0.9 \<noteq> sigmoid 1"
    using sigmoid_inj[of "0.9" 1] by auto
qed

subsection \<open>runUntilConvergence\<close>

lemma rounds_shift:
  "rounds d (Suc k) net = rounds d k (snd (spreadActivation (Some d) net))"
  by (induction k) simp_all

lemma delta_of_round_shift:
  "0 < j \<Longrightarrow> delta_of_round d (Suc j) net =
     delta_of_round d j (snd (spreadActivation (Some d) net))"
  by (cases j) (simp_all add: delta_of_round_def rounds_shift del: rounds.simps(2))

lemma run_loop_rounds:
  assumes "cfg_maxIterations cfg = real n"
  shows "i < n \<Longrightarrow> delta_gt dl (cfg_convergenceThreshold cfg) \<Longrightarrow>
     \<exists>k. 0 < k \<and> i + k \<le> n \<and>
         run_loop cfg i dl net =
           (i + k, Delta (delta_of_round (cfg_decayRate cfg) k net),
            rounds (cfg_decayRate cfg) k net) \<and>
         (\<forall>j. 0 < j \<and> j < k \<longrightarrow>
              delta_of_round (cfg_decayRate cfg) j net > cfg_convergenceThreshold cfg) \<and>
         (delta_of_round (cfg_decayRate cfg) k net \<le> cfg_convergenceThreshold cfg \<or> i + k = n)"
proof (induction "n - i" arbitrary: i dl net)
  case 0
  then show ?case by simp
next
  case (Suc m)
  let ?d = "cfg_decayRate cfg" and ?thr = "cfg_convergenceThreshold cfg"
  let ?net1 = "snd (spreadActivation (Some ?d) net)"
  let ?d1 = "delta_of_round ?d (Suc 0) net"
  have step: "run_loop cfg i dl net = run_loop cfg (Suc i) (Delta ?d1) ?net1"
    using run_loop_step[of i cfg dl net] Suc.prems assms
    by (simp add: delta_of_round_def)
  show ?case
  proof (cases "Suc i < n \<and> ?d1 > ?thr")
    case True
    have m: "m = n - Suc i" using Suc.hyps(2) by simp
    from Suc.hyps(1)[OF m, of "Delta ?d1" ?net1] True
    obtain k where k: "0 < k" "Suc i + k \<le> n"
      "run_loop cfg (Suc i) (Delta ?d1) ?net1 =
         (Suc i + k, Delta (delta_of_round ?d k ?net1), rounds ?d k ?net1)"
      "\<forall>j. 0 < j \<and> j < k \<longrightarrow> delta_of_round ?d j ?net1 > ?thr"
      "delta_of_round ?d k ?net1 \<le> ?thr \<or> Suc i + k = n"
      by auto
    have all: "\<forall>j. 0 < j \<and> j < Suc k \<longrightarrow> delta_of_round ?d j net > ?thr"
    proof (intro allI impI)
      fix j assume j: "0 < j \<and> j < Suc k"
      show "delta_of_round ?d j net > ?thr"
      proof (cases "j = Suc 0")
        case True
        then show ?thesis using \<open>Suc i < n \<and> ?d1 > ?thr\<close> by simp
      next
        case False
        then obtain j' where j': "j = Suc j'" "0 < j'" "j' < k"
          using j by (cases j) auto
        then show ?thesis
          using k(4) by (simp add: delta_of_round_shift)
      qed
    qed
    show ?thesis
      apply (rule exI[of _ "Suc k"])
      using k all
      by (simp add: step rounds_shift delta_of_round_shift del: rounds.simps(2))
  next
    case False
    have stop: "run_loop cfg (Suc i) (Delta ?d1) ?net1 = (Suc i, Delta ?d1, ?net1)"
      by (rule run_loop_stop) (use False assms in auto)
    show ?thesis
      apply (rule exI[of _ "Suc 0"])
      using False Suc.prems
      by (auto simp: step stop)
  qed
qed


text \<open>
  Relative to the merged configuration of the run (\<open>run_config_of\<close>): when the options
  carry a positive integer \<open>maxIterations = n\<close>, \<^verbatim>\<open>runUntilConvergence\<close> returns (the loop
  is a total function) after some number \<open>k\<close> of rounds of \<^verbatim>\<open>spreadActivation\<close> with
  \<open>1 \<le> k \<le> n\<close>: the graph is the one after \<open>k\<close> rounds, \<open>iterations = k\<close>, \<open>finalDelta\<close> is
  the delta of round \<open>k\<close>, and \<open>converged\<close> holds exactly when that delta is at most the
  merged threshold. Every earlier round had a delta above it, and round \<open>k\<close> either met
  it or was round \<open>n\<close>.
\<close>

lemma runUntilConvergence_bounded:
  assumes "opt_maxIterations options = Some (real n)" and "0 < n"
  shows "let config = run_config_of options (params net);
             thr = cfg_convergenceThreshold config;
             d = cfg_decayRate config
         in \<exists>k. 0 < k \<and> k \<le> n \<and>
                runUntilConvergence options net =
                  (\<lparr>converged = (delta_of_round d k net \<le> thr), iterations = k,
                    finalDelta = Delta (delta_of_round d k net)\<rparr>,
                   rounds d k net) \<and>
                (\<forall>j. 0 < j \<and> j < k \<longrightarrow> delta_of_round d j net > thr) \<and>
                (delta_of_round d k net \<le> thr \<or> k = n)"
proof -
  let ?cfg = "run_config_of options (params net)"
  have mx: "cfg_maxIterations ?cfg = real n"
    using assms by (simp add: run_config_of_def js_or_def)
  from run_loop_rounds[OF mx, of 0 Infinity net] assms(2)
  obtain k where k: "0 < k" "k \<le> n"
    "run_loop ?cfg 0 Infinity net =
       (k, Delta (delta_of_round (cfg_decayRate ?cfg) k net), rounds (cfg_decayRate ?cfg) k net)"
    "\<forall>j. 0 < j \<and> j < k \<longrightarrow>
       delta_of_round (cfg_decayRate ?cfg) j net > cfg_convergenceThreshold ?cfg"
    "delta_of_round (cfg_decayRate ?cfg) k net \<le> cfg_convergenceThreshold ?cfg \<or> k = n"
    by auto
  show ?thesis
    unfolding Let_def
    apply (rule exI[of _ k])
    using k by (simp add: runUntilConvergence_def Let_def)
qed

lemma runUntilConvergence_bounded_example:
  "opt_maxIterations \<lparr>opt_maxIterations = Some 1, opt_convergenceThreshold = None,
                      opt_decayRate = None\<rparr> = Some (real 1) \<and>
   iterations (fst (runUntilConvergence
                      \<lparr>opt_maxIterations = Some 1, opt_convergenceThreshold = None,
                       opt_decayRate = None\<rparr> net_AB1)) = 1 \<and>
   snd (runUntilConvergence
          \<lparr>opt_maxIterations = Some 1, opt_convergenceThreshold = None,
           opt_decayRate = None\<rparr> net_AB1) = snd (spreadActivation (Some 0.1) net_AB1)"
proof -
  let ?o = "\<lparr>opt_maxIterations = Some 1, opt_convergenceThreshold = None,
             opt_decayRate = None\<rparr>"
  have h: "opt_maxIterations ?o = Some (real 1)" by simp
  have c: "cfg_decayRate (run_config_of ?o (params net_AB1)) = 0.1"
    by (simp add: run_config_of_def js_or_def net_AB1_def default_params_def)
  from runUntilConvergence_bounded[OF h, of net_AB1]
  obtain k where k: "0 < k" "k \<le> 1"
    "runUntilConvergence ?o net_AB1 =
       (\<lparr>converged = (delta_of_round 0.1 k net_AB1
                        \<le> cfg_convergenceThreshold (run_config_of ?o (params net_AB1))),
         iterations = k, finalDelta = Delta (delta_of_round 0.1 k net_AB1)\<rparr>,
        rounds 0.1 k net_AB1)"
    unfolding Let_def c by auto
  have "k = 1" using k(1,2) by simp
  then show ?thesis using k(3) h by simp
qed

lemma build_half:
  "(case addConcept ''x'' None (Some ''n'') u new_ConceptNetwork of
      Inl e \<Rightarrow> Inl e
    | Inr (i1, n1) \<Rightarrow> Inr (setInitialActivation (IdList [i1]) (Some 0.5) n1)) = Inr net_half"
  by (simp add: addConcept_def new_ConceptNetwork_def map_has_def new_ConceptNode_def
      net_half_def Let_def setInitialActivation_def updateActivation_def
      recordActivationState_def)

lemma sigmoid_small: "1 / 2 < sigmoid (1 / 100) \<and> sigmoid (1 / 100) \<le> 51 / 100"
proof -
  have e1: "exp (- (1 / 100) :: real) < 1" by simp
  have e2: "(99 / 100 :: real) \<le> exp (- (1 / 100))"
    using exp_ge_add_one_self[of "- (1 / 100) :: real"] by simp
  have p: "0 < 1 + exp (- (1 / 100) :: real)" by (simp add: add_pos_pos)
  have "1 / 2 < 1 / (1 + exp (- (1 / 100) :: real))"
    using e1 p by (simp add: field_simps)
  moreover have "1 / (1 + exp (- (1 / 100) :: real)) \<le> 51 / 100"
    using e2 p by (simp add: field_simps)
  ultimately show ?thesis by (simp add: sigmoid_def)
qed

lemma delta_half:
  "r_totalDelta (fst (spreadActivation (Some 0.98) net_half)) = sigmoid (1 / 100) - 1 / 2"
proof -
  have d: "distinct (map fst (nodes net_half))" by (simp add: net_half_def)
  have n: "nodes (snd (spreadActivation (Some 0.98) net_half)) =
    [(''n'', \<lparr>node_id = ''n'', label = ''x'', category = None, connections = [],
              activation = sigmoid (1 / 100), prevActivation = 1 / 2, metadata = []\<rparr>)]"
    unfolding spreadActivation_nodes[OF d]
    by (simp add: net_half_def incoming_sum_def)
  have "r_totalDelta (fst (spreadActivation (Some 0.98) net_half)) =
        foldl (\<lambda>sum node. sum + getActivationDelta node) 0
          (map snd (nodes (snd (spreadActivation (Some 0.98) net_half))))"
    by (simp add: spreadActivation_def Let_def recordActivationState_def)
  also have "\<dots> = \<bar>sigmoid (1 / 100) - 1 / 2\<bar>"
    unfolding n by (simp add: getActivationDelta_def)
  finally show ?thesis using sigmoid_small by simp
qed

text \<open>
  C3. \<^verbatim>\<open>runUntilConvergence\<close> does not stop and report by the supplied threshold when
  that is 0: on a single concept seeded with 0.5 (\<open>build_half\<close>), with the options
  \<^verbatim>\<open>{maxIterations: 1000, convergenceThreshold: 0, decayRate: 0.98}\<close>, the first round has
  \<open>totalDelta = sigmoid (1 / 100) - 1 / 2\<close>, which is positive and so above the supplied
  threshold, and 1 is below \<open>maxIterations\<close>; yet the run stops after this round and
  returns \<open>converged = true\<close>, because the \<^verbatim>\<open>||\<close> merge has replaced the threshold by the
  default 0.01.
\<close>

theorem runUntilConvergence_zero_threshold:
  "runUntilConvergence
     \<lparr>opt_maxIterations = Some 1000, opt_convergenceThreshold = Some 0,
      opt_decayRate = Some 0.98\<rparr> net_half =
     (\<lparr>converged = True, iterations = 1,
       finalDelta = Delta (sigmoid (1 / 100) - 1 / 2)\<rparr>,
      snd (spreadActivation (Some 0.98) net_half)) \<and>
   0 < sigmoid (1 / 100) - 1 / 2"
proof -
  let ?o = "\<lparr>opt_maxIterations = Some 1000, opt_convergenceThreshold = Some 0,
             opt_decayRate = Some 0.98\<rparr>"
  let ?cfg = "\<lparr>cfg_maxIterations = 1000, cfg_convergenceThreshold = 0.01,
               cfg_decayRate = 0.98\<rparr>"
  let ?dl = "Delta (r_totalDelta (fst (spreadActivation (Some 0.98) net_half)))"
  have c: "run_config_of ?o (params net_half) = ?cfg"
    by (simp add: run_config_of_def js_or_def default_params_def net_half_def)
  have "run_loop ?cfg 0 Infinity net_half =
        run_loop ?cfg (Suc 0) ?dl (snd (spreadActivation (Some 0.98) net_half))"
    using run_loop_step[of 0 ?cfg Infinity net_half] by simp
  also have "\<dots> = (Suc 0, ?dl, snd (spreadActivation (Some 0.98) net_half))"
    by (rule run_loop_stop) (use sigmoid_small delta_half in simp)
  finally have l: "run_loop ?cfg 0 Infinity net_half =
      (Suc 0, ?dl, snd (spreadActivation (Some 0.98) net_half))" .
  show ?thesis
    unfolding runUntilConvergence_def Let_def c l
    using sigmoid_small delta_half by simp
qed

subsection \<open>The analysis methods leave the state alone\<close>

lemma getTopActivatedConcepts_frame: "snd (getTopActivatedConcepts limit threshold net) = net"
  by (simp add: getTopActivatedConcepts_def Let_def)

lemma identifyEmergentPatterns_frame: "snd (identifyEmergentPatterns uuids threshold net) = net"
  by (simp add: identifyEmergentPatterns_def Let_def split: sum.splits)

lemma getNetworkSize_frame: "snd (getNetworkSize net) = net"
  by (simp add: getNetworkSize_def)

lemma generateSummary_frame: "snd (generateSummary uuids net) = net"
proof -
  obtain t n1 where t: "getTopActivatedConcepts (Some 5) None net = (t, n1)"
    by (cases "getTopActivatedConcepts (Some 5) None net")
  have n1: "n1 = net" using getTopActivatedConcepts_frame[of "Some 5" None net] t by simp
  obtain r n2 where r: "identifyEmergentPatterns uuids None net = (r, n2)"
    by (cases "identifyEmergentPatterns uuids None net")
  have n2: "n2 = net" using identifyEmergentPatterns_frame[of uuids None net] r by simp
  obtain z n3 where z: "getNetworkSize net = (z, n3)"
    by (cases "getNetworkSize net")
  have n3: "n3 = net" using getNetworkSize_frame[of net] z by simp
  show ?thesis
    by (cases r) (simp_all add: generateSummary_def t n1 r n2 z n3)
qed

text \<open>
  C10. \<^verbatim>\<open>getTopActivatedConcepts\<close>, \<^verbatim>\<open>identifyEmergentPatterns\<close>, \<^verbatim>\<open>getNetworkSize\<close> and
  \<^verbatim>\<open>generateSummary\<close> are read-only: the state of the network after the call (nodes
  with their activation, previous activation, edges and metadata, the history, the round
  counter and the parameters) is the state before it.
\<close>

theorem analysis_read_only:
  "snd (getTopActivatedConcepts limit threshold net) = net \<and>
   snd (identifyEmergentPatterns uuids threshold net) = net \<and>
   snd (getNetworkSize net) = net \<and>
   snd (generateSummary uuids net) = net"
  by (simp add: getTopActivatedConcepts_frame identifyEmergentPatterns_frame
      getNetworkSize_frame generateSummary_frame)

theorem analysis_read_only_witness:
  "snd (getTopActivatedConcepts (Some 10) (Some 0.5) net_AB1) = net_AB1 \<and>
   snd (identifyEmergentPatterns uuid_p (Some 0.5) net_AB1) = net_AB1 \<and>
   snd (getNetworkSize net_AB1) = net_AB1 \<and>
   snd (generateSummary uuid_p net_AB1) = net_AB1"
  using analysis_read_only[of "Some 10" "Some 0.5" net_AB1 uuid_p] by simp

subsection \<open>getTopActivatedConcepts\<close>

lemma build_c1c2:
  "(case addConcept ''x'' None (Some ''c1'') u new_ConceptNetwork of
      Inl e \<Rightarrow> Inl e
    | Inr (i1, n1) \<Rightarrow> addConcept ''y'' None (Some ''c2'') u n1) = Inr (''c2'', net_c1c2)"
  by (simp add: addConcept_def new_ConceptNetwork_def map_has_def net_c1c2_def Let_def)

lemma build_c2c1:
  "(case addConcept ''y'' None (Some ''c2'') u new_ConceptNetwork of
      Inl e \<Rightarrow> Inl e
    | Inr (i1, n1) \<Rightarrow> addConcept ''x'' None (Some ''c1'') u n1) = Inr (''c1'', net_c2c1)"
  by (simp add: addConcept_def new_ConceptNetwork_def map_has_def net_c2c1_def Let_def)

lemma slice_to_map: "slice_to e (map f xs) = map f (slice_to e xs)"
  by (simp add: slice_to_def take_map)

lemma top_c1c2:
  "map c_id (fst (getTopActivatedConcepts (Some 10) (Some 0.5)
                    (setInitialActivation (IdList [''c1'', ''c2'']) (Some 1) net_c1c2))) =
     [''c1'', ''c2'']"
  by (simp add: getTopActivatedConcepts_def setInitialActivation_def net_c1c2_def
      new_ConceptNode_def updateActivation_def map_has_def recordActivationState_def info_of_def
      slice_to_def)

text \<open>
  C8, as stated, fails: when c2 was added to the graph before c1 (\<open>build_c2c1\<close>) and
  both are seeded with 1, \<^verbatim>\<open>getTopActivatedConcepts(10, 0.5)\<close> returns c2 before c1.
\<close>

theorem getTopActivatedConcepts_tie_counterexample:
  "map c_id (fst (getTopActivatedConcepts (Some 10) (Some 0.5)
                    (setInitialActivation (IdList [''c1'', ''c2'']) (Some 1) net_c2c1))) =
     [''c2'', ''c1'']"
  by (simp add: getTopActivatedConcepts_def setInitialActivation_def net_c2c1_def
      new_ConceptNode_def updateActivation_def map_has_def recordActivationState_def info_of_def
      slice_to_def)

lemma sorted_desc_sort_key:
  "sorted_wrt (\<lambda>a b. f a \<ge> f b) (sort_key (\<lambda>x. - f x) (xs :: 'a list))"
  for f :: "'a \<Rightarrow> real"
proof -
  have "sorted (map (\<lambda>x. - f x) (sort_key (\<lambda>x. - f x) xs))"
    by (rule sorted_sort_key)
  then show ?thesis
    by (simp add: sorted_map sorted_wrt_iff_nth_less)
qed

lemma getTopActivatedConcepts_ranked_aux:
  assumes "wf_network net"
  shows "let t = (case threshold of None \<Rightarrow> activationThreshold (params net) | Some x \<Rightarrow> x);
             l = (case limit of None \<Rightarrow> 10 | Some n \<Rightarrow> n)
         in \<exists>full. fst (getTopActivatedConcepts limit threshold net) = slice_to l full \<and>
              (0 \<le> l \<longrightarrow> fst (getTopActivatedConcepts limit threshold net) = take (nat l) full) \<and>
              distinct (map c_id full) \<and>
              set full = {info_of k n | k n. (k, n) \<in> set (nodes net) \<and> activation n \<ge> t} \<and>
              sorted_wrt (\<lambda>a b. c_activation a \<ge> c_activation b) full \<and>
              (\<forall>a. filter (\<lambda>i. c_activation i = a) full =
                    map (\<lambda>(k, n). info_of k n)
                      (filter (\<lambda>(k, n). activation n = a \<and> a \<ge> t) (nodes net)))"
proof -
  define t where "t = (case threshold of None \<Rightarrow> activationThreshold (params net) | Some x \<Rightarrow> x)"
  define l where "l = (case limit of None \<Rightarrow> (10::int) | Some n \<Rightarrow> n)"
  define act where "act = filter (\<lambda>node. activation node \<ge> t) (map snd (nodes net))"
  define srt where "srt = sort_key (\<lambda>node. - activation node) act"
  define full where "full = map (\<lambda>node. info_of (node_id node) node) srt"
  have ids: "\<And>k n. (k, n) \<in> set (nodes net) \<Longrightarrow> node_id n = k"
    using assms by (auto simp: wf_network_def wf_nodes_def list_all_iff)
  have dk: "distinct (map fst (nodes net))"
    using assms by (simp add: wf_network_def wf_nodes_def)
  have mid: "map node_id (map snd (nodes net)) = map fst (nodes net)"
    using ids by (auto intro!: map_cong simp: comp_def)
  have dact: "distinct (map node_id act)"
    unfolding act_def using dk mid by (metis distinct_map_filter)
  have r: "fst (getTopActivatedConcepts limit threshold net) = slice_to l full"
    by (simp add: getTopActivatedConcepts_def Let_def full_def srt_def act_def t_def l_def
        slice_to_map)
  have r': "0 \<le> l \<longrightarrow> fst (getTopActivatedConcepts limit threshold net) = take (nat l) full"
    unfolding r by (simp add: slice_to_def)
  have cid: "map c_id full = map node_id srt"
    by (simp add: full_def info_of_def comp_def)
  have d: "distinct (map c_id full)"
    unfolding cid srt_def using dact
    by (metis distinct_map distinct_sort set_sort)
  have s: "set full = {info_of k n | k n. (k, n) \<in> set (nodes net) \<and> activation n \<ge> t}"
  proof -
    have "set full = (\<lambda>node. info_of (node_id node) node) ` {n \<in> snd ` set (nodes net). activation n \<ge> t}"
      by (auto simp: full_def srt_def act_def)
    also have "\<dots> = {info_of k n | k n. (k, n) \<in> set (nodes net) \<and> activation n \<ge> t}"
      using ids by (force simp: image_iff)
    finally show ?thesis .
  qed
  have o: "sorted_wrt (\<lambda>a b. c_activation a \<ge> c_activation b) full"
    using sorted_desc_sort_key[of activation act]
    by (simp add: full_def srt_def sorted_wrt_map info_of_def)
  have st: "filter (\<lambda>i. c_activation i = a) full =
            map (\<lambda>(k, n). info_of k n)
              (filter (\<lambda>(k, n). activation n = a \<and> a \<ge> t) (nodes net))" for a
  proof -
    have "filter (\<lambda>i. c_activation i = a) full =
          map (\<lambda>node. info_of (node_id node) node) (filter (\<lambda>n. - activation n = - a) srt)"
      by (simp add: full_def filter_map comp_def info_of_def)
    also have "filter (\<lambda>n. - activation n = - a) srt = filter (\<lambda>n. - activation n = - a) act"
      unfolding srt_def by (rule sort_key_stable)
    also have "\<dots> = map snd (filter (\<lambda>(k, n). activation n = a \<and> a \<ge> t) (nodes net))"
      by (auto simp: act_def filter_map comp_def case_prod_beta intro!: arg_cong[where f="map snd"] filter_cong)
    also have "map (\<lambda>node. info_of (node_id node) node) \<dots> =
               map (\<lambda>(k, n). info_of k n)
                 (filter (\<lambda>(k, n). activation n = a \<and> a \<ge> t) (nodes net))"
      using ids by (auto simp: comp_def)
    finally show ?thesis .
  qed
  show ?thesis
    unfolding Let_def t_def[symmetric] l_def[symmetric]
    using r r' d s o st by blast
qed


text \<open>
  C8, amended. In a well-formed graph \<^verbatim>\<open>getTopActivatedConcepts(limit, threshold)\<close>
  returns \<open>slice_to limit full\<close>, for \<open>limit \<ge> 0\<close> the first \<open>limit\<close> entries (\<open>limit\<close>
  is 10 when none is given), of a list \<open>full\<close> that
  holds exactly the nodes whose activation is at least the threshold (the configured
  \<open>activationThreshold\<close> when none is given), each once, in descending order of
  activation, nodes of equal activation in the order in which they were added to the
  graph. After adding c1 then c2 and seeding both with 1, the call with limit 10 and
  threshold 0.5 returns c1 then c2.
\<close>

theorem getTopActivatedConcepts_ranked:
  "(wf_network net \<longrightarrow>
     (let t = (case threshold of None \<Rightarrow> activationThreshold (params net) | Some x \<Rightarrow> x);
          l = (case limit of None \<Rightarrow> 10 | Some n \<Rightarrow> n)
      in \<exists>full. fst (getTopActivatedConcepts limit threshold net) = slice_to l full \<and>
           (0 \<le> l \<longrightarrow> fst (getTopActivatedConcepts limit threshold net) = take (nat l) full) \<and>
           distinct (map c_id full) \<and>
           set full = {info_of k n | k n. (k, n) \<in> set (nodes net) \<and> activation n \<ge> t} \<and>
           sorted_wrt (\<lambda>a b. c_activation a \<ge> c_activation b) full \<and>
           (\<forall>a. filter (\<lambda>i. c_activation i = a) full =
                 map (\<lambda>(k, n). info_of k n)
                   (filter (\<lambda>(k, n). activation n = a \<and> a \<ge> t) (nodes net))))) \<and>
   (case addConcept ''x'' None (Some ''c1'') u new_ConceptNetwork of
      Inl e \<Rightarrow> Inl e
    | Inr (i1, n1) \<Rightarrow> addConcept ''y'' None (Some ''c2'') u n1) = Inr (''c2'', net_c1c2) \<and>
   map c_id (fst (getTopActivatedConcepts (Some 10) (Some 0.5)
                    (setInitialActivation (IdList [''c1'', ''c2'']) (Some 1) net_c1c2))) =
     [''c1'', ''c2'']"
  using getTopActivatedConcepts_ranked_aux[of net threshold limit] build_c1c2[of u] top_c1c2
  by blast

theorem getTopActivatedConcepts_ranked_witness:
  "wf_network net_AB1 \<and>
   (\<exists>full. fst (getTopActivatedConcepts (Some 1) (Some 0) net_AB1) = take 1 full \<and>
      fst (getTopActivatedConcepts (Some 1) (Some 0) net_AB1) = slice_to 1 full \<and>
      distinct (map c_id full) \<and>
      set full = {info_of k n | k n. (k, n) \<in> set (nodes net_AB1) \<and> activation n \<ge> 0} \<and>
      sorted_wrt (\<lambda>a b. c_activation a \<ge> c_activation b) full \<and>
      (\<forall>a. filter (\<lambda>i. c_activation i = a) full =
            map (\<lambda>(k, n). info_of k n)
              (filter (\<lambda>(k, n). activation n = a \<and> a \<ge> 0) (nodes net_AB1))))"
proof -
  have wf: "wf_network net_AB1" by (simp add: wf_network_def wf_nodes_def net_AB1_def)
  show ?thesis
    using getTopActivatedConcepts_ranked[of net_AB1 "Some 0" "Some 1" "''u''"] wf
    unfolding Let_def by simp blast
qed

subsection \<open>setInitialActivation\<close>

lemma map_entry_absent: "k \<notin> fst ` set ns \<Longrightarrow> AList.map_entry k f ns = ns"
  by (induction ns) auto

lemma guarded_map_entry:
  "(if map_has ns i then AList.map_entry i f ns else ns) = AList.map_entry i f ns"
  by (simp add: map_has_iff map_entry_absent)

lemma fold_seed_list:
  "distinct (map fst ns) \<Longrightarrow>
   fold (\<lambda>i ns. if map_has ns i then AList.map_entry i f ns else ns) ids ns =
     map (\<lambda>(k, n). (k, (f ^^ count_list ids k) n)) ns"
proof (induction ids arbitrary: ns)
  case Nil
  then show ?case by simp
next
  case (Cons i ids)
  have d: "distinct (map fst (AList.map_entry i f ns))"
    using Cons.prems by (simp add: map_fst_map_entry)
  show ?case
    using Cons.IH[OF d]
    by (auto simp: guarded_map_entry map_entry_distinct[OF Cons.prems] funpow_swap1)
qed

lemma updateActivation_funpow:
  "0 < c \<Longrightarrow> (updateActivation v ^^ c) n =
     n\<lparr>prevActivation := (if c = 1 then activation n else v), activation := v\<rparr>"
proof (induction c)
  case 0
  then show ?case by simp
next
  case (Suc c)
  then show ?case
    by (cases "c = 0") (simp_all add: updateActivation_def)
qed

lemma fold_seed_map:
  "distinct (map fst m) \<Longrightarrow> distinct (map fst ns) \<Longrightarrow>
   fold (\<lambda>(i, a) ns. if map_has ns i then AList.map_entry i (updateActivation a) ns else ns) m ns =
     map (\<lambda>(k, n). (k, case map_of m k of None \<Rightarrow> n | Some a \<Rightarrow> updateActivation a n)) ns"
  using fold_commit[of m ns updateActivation]
  by (simp add: guarded_map_entry)

lemma setInitialActivation_list_nodes:
  assumes "distinct (map fst (nodes net))"
  shows "nodes (setInitialActivation (IdList ids) val net) =
     map (\<lambda>(k, n).
            (k, if k \<in> set ids
                then n\<lparr>prevActivation :=
                         (if count_list ids k = 1 then 0
                          else (case val of None \<Rightarrow> 1 | Some x \<Rightarrow> x)),
                       activation := (case val of None \<Rightarrow> 1 | Some x \<Rightarrow> x)\<rparr>
                else n\<lparr>prevActivation := activation n, activation := 0\<rparr>))
       (nodes net)"
proof -
  let ?v = "case val of None \<Rightarrow> 1 | Some x \<Rightarrow> x"
  let ?ns0 = "map (\<lambda>(k, node). (k, updateActivation 0 node)) (nodes net)"
  have d0: "distinct (map fst ?ns0)"
    using assms by (simp add: comp_def case_prod_beta)
  have "nodes (setInitialActivation (IdList ids) val net) =
        fold (\<lambda>i ns. if map_has ns i then AList.map_entry i (updateActivation ?v) ns else ns)
          ids ?ns0"
    by (simp add: setInitialActivation_def recordActivationState_def Let_def)
  also have "\<dots> = map (\<lambda>(k, n). (k, (updateActivation ?v ^^ count_list ids k) n)) ?ns0"
    by (rule fold_seed_list[OF d0])
  also have "\<dots> = map (\<lambda>(k, n).
            (k, if k \<in> set ids
                then n\<lparr>prevActivation := (if count_list ids k = 1 then 0 else ?v),
                       activation := ?v\<rparr>
                else n\<lparr>prevActivation := activation n, activation := 0\<rparr>))
       (nodes net)"
  proof -
    have "(updateActivation ?v ^^ count_list ids k) (updateActivation 0 n) =
          (if k \<in> set ids
           then n\<lparr>prevActivation := (if count_list ids k = 1 then 0 else ?v), activation := ?v\<rparr>
           else n\<lparr>prevActivation := activation n, activation := 0\<rparr>)" for k n
    proof (cases "k \<in> set ids")
      case True
      then have "0 < count_list ids k" using count_list_0_iff[of ids k] by auto
      then show ?thesis
        using True by (simp add: updateActivation_funpow) (simp add: updateActivation_def)
    next
      case False
      then show ?thesis by (simp add: count_list_0_iff updateActivation_def)
    qed
    then show ?thesis by (simp add: comp_def case_prod_beta)
  qed
  finally show ?thesis .
qed

lemma setInitialActivation_map_nodes:
  assumes "distinct (map fst (nodes net))" "distinct (map fst m)"
  shows "nodes (setInitialActivation (IdMap m) val net) =
     map (\<lambda>(k, n).
            (k, case map_of m k of
                  Some a \<Rightarrow> n\<lparr>prevActivation := 0, activation := a\<rparr>
                | None \<Rightarrow> n\<lparr>prevActivation := activation n, activation := 0\<rparr>))
       (nodes net)"
proof -
  let ?ns0 = "map (\<lambda>(k, node). (k, updateActivation 0 node)) (nodes net)"
  have d0: "distinct (map fst ?ns0)"
    using assms by (simp add: comp_def case_prod_beta)
  have "nodes (setInitialActivation (IdMap m) val net) =
        fold (\<lambda>(i, a) ns. if map_has ns i then AList.map_entry i (updateActivation a) ns else ns)
          m ?ns0"
    by (simp add: setInitialActivation_def recordActivationState_def Let_def)
  also have "\<dots> = map (\<lambda>(k, n). (k, case map_of m k of
                                      None \<Rightarrow> n | Some a \<Rightarrow> updateActivation a n)) ?ns0"
    by (rule fold_seed_map[OF assms(2) d0])
  also have "\<dots> = map (\<lambda>(k, n).
            (k, case map_of m k of
                  Some a \<Rightarrow> n\<lparr>prevActivation := 0, activation := a\<rparr>
                | None \<Rightarrow> n\<lparr>prevActivation := activation n, activation := 0\<rparr>))
       (nodes net)"
    by (auto simp: comp_def case_prod_beta updateActivation_def split: option.splits)
  finally show ?thesis .
qed

lemma setInitialActivation_history:
  "activationHistory (setInitialActivation sel val net) =
     [\<lparr>h_iteration = 0,
       h_activations = map (\<lambda>(k, n). info_of k n) (nodes (setInitialActivation sel val net))\<rparr>] \<and>
   iterationCount (setInitialActivation sel val net) = 1 \<and>
   params (setInitialActivation sel val net) = params net"
  by (simp add: setInitialActivation_def recordActivationState_def Let_def info_of_def)

text \<open>
  C2, as stated, fails: in the seeded scenario graph A has activation 1; after
  \<^verbatim>\<open>setInitialActivation(["B"], 1)\<close> the node A, which is not selected, has previous
  activation 1, not 0.
\<close>

theorem setInitialActivation_counterexample:
  "''A'' \<notin> set [''B''] \<and> activation_at net_AB1 ''A'' = Some 1 \<and>
   prevActivation_at (setInitialActivation (IdList [''B'']) (Some 1) net_AB1) ''A'' = Some 1"
  by (simp add: setInitialActivation_def net_AB1_def updateActivation_def map_has_def
      recordActivationState_def prevActivation_at_def activation_at_def)


text \<open>
  C2, amended. In a well-formed graph \<^verbatim>\<open>setInitialActivation\<close> keeps the nodes and their
  order. A node that is not selected gets activation 0 and, as previous activation, the
  activation it had before the call. A node selected by the list variant gets the
  uniform value (1 when none is given) as activation and previous activation 0 (the
  value itself if its id is listed more than once); a node selected by the mapping
  variant gets its own value and previous activation 0. Ids that are not in the graph
  change nothing. The history then consists of the single entry for round 0 with the
  snapshot of the resulting nodes, and the round counter is 1.
\<close>

theorem setInitialActivation_reseed:
  "(wf_network net \<longrightarrow>
     (let v = (case val of None \<Rightarrow> 1 | Some x \<Rightarrow> x);
          net' = setInitialActivation (IdList ids) val net
      in nodes net' =
           map (\<lambda>(k, n).
                  (k, if k \<in> set ids
                      then n\<lparr>prevActivation := (if count_list ids k = 1 then 0 else v),
                             activation := v\<rparr>
                      else n\<lparr>prevActivation := activation n, activation := 0\<rparr>))
             (nodes net) \<and>
         (\<forall>(k, n) \<in> set (nodes net).
            k \<notin> set ids \<longrightarrow>
              activation_at net' k = Some 0 \<and>
              prevActivation_at net' k = Some (activation n)) \<and>
         (\<forall>(k, n) \<in> set (nodes net). k \<in> set ids \<longrightarrow> activation_at net' k = Some v) \<and>
         activationHistory net' =
           [\<lparr>h_iteration = 0, h_activations = map (\<lambda>(k, n). info_of k n) (nodes net')\<rparr>] \<and>
         iterationCount net' = 1)) \<and>
   (wf_network net \<and> distinct (map fst m) \<longrightarrow>
     (let net' = setInitialActivation (IdMap m) val net
      in nodes net' =
           map (\<lambda>(k, n).
                  (k, case map_of m k of
                        Some a \<Rightarrow> n\<lparr>prevActivation := 0, activation := a\<rparr>
                      | None \<Rightarrow> n\<lparr>prevActivation := activation n, activation := 0\<rparr>))
             (nodes net) \<and>
         (\<forall>(k, n) \<in> set (nodes net).
            k \<notin> fst ` set m \<longrightarrow>
              activation_at net' k = Some 0 \<and>
              prevActivation_at net' k = Some (activation n)) \<and>
         (\<forall>(k, n) \<in> set (nodes net).
            \<forall>a. (k, a) \<in> set m \<longrightarrow> activation_at net' k = Some a) \<and>
         activationHistory net' =
           [\<lparr>h_iteration = 0, h_activations = map (\<lambda>(k, n). info_of k n) (nodes net')\<rparr>] \<and>
         iterationCount net' = 1))"
proof (intro conjI impI)
  assume wf: "wf_network net"
  then have d: "distinct (map fst (nodes net))" by (simp add: wf_network_def wf_nodes_def)
  show "let v = (case val of None \<Rightarrow> 1 | Some x \<Rightarrow> x);
          net' = setInitialActivation (IdList ids) val net
      in nodes net' =
           map (\<lambda>(k, n).
                  (k, if k \<in> set ids
                      then n\<lparr>prevActivation := (if count_list ids k = 1 then 0 else v),
                             activation := v\<rparr>
                      else n\<lparr>prevActivation := activation n, activation := 0\<rparr>))
             (nodes net) \<and>
         (\<forall>(k, n) \<in> set (nodes net).
            k \<notin> set ids \<longrightarrow>
              activation_at net' k = Some 0 \<and>
              prevActivation_at net' k = Some (activation n)) \<and>
         (\<forall>(k, n) \<in> set (nodes net). k \<in> set ids \<longrightarrow> activation_at net' k = Some v) \<and>
         activationHistory net' =
           [\<lparr>h_iteration = 0, h_activations = map (\<lambda>(k, n). info_of k n) (nodes net')\<rparr>] \<and>
         iterationCount net' = 1"
    unfolding Let_def
  proof (intro conjI)
    show "nodes (setInitialActivation (IdList ids) val net) =
           map (\<lambda>(k, n).
                  (k, if k \<in> set ids
                      then n\<lparr>prevActivation :=
                               (if count_list ids k = 1 then 0
                                else (case val of None \<Rightarrow> 1 | Some x \<Rightarrow> x)),
                             activation := (case val of None \<Rightarrow> 1 | Some x \<Rightarrow> x)\<rparr>
                      else n\<lparr>prevActivation := activation n, activation := 0\<rparr>))
             (nodes net)"
      by (rule setInitialActivation_list_nodes[OF d])
    show "\<forall>(k, n) \<in> set (nodes net).
            k \<notin> set ids \<longrightarrow>
              activation_at (setInitialActivation (IdList ids) val net) k = Some 0 \<and>
              prevActivation_at (setInitialActivation (IdList ids) val net) k =
                Some (activation n)"
      using d
      by (auto simp: activation_at_def prevActivation_at_def
          setInitialActivation_list_nodes[OF d] map_of_map_values)
    show "\<forall>(k, n) \<in> set (nodes net). k \<in> set ids \<longrightarrow>
            activation_at (setInitialActivation (IdList ids) val net) k =
              Some (case val of None \<Rightarrow> 1 | Some x \<Rightarrow> x)"
      using d
      by (auto simp: activation_at_def setInitialActivation_list_nodes[OF d] map_of_map_values)
  qed (simp_all add: setInitialActivation_history)
next
  assume "wf_network net \<and> distinct (map fst m)"
  then have d: "distinct (map fst (nodes net))" and dm: "distinct (map fst m)"
    by (simp_all add: wf_network_def wf_nodes_def)
  show "let net' = setInitialActivation (IdMap m) val net
      in nodes net' =
           map (\<lambda>(k, n).
                  (k, case map_of m k of
                        Some a \<Rightarrow> n\<lparr>prevActivation := 0, activation := a\<rparr>
                      | None \<Rightarrow> n\<lparr>prevActivation := activation n, activation := 0\<rparr>))
             (nodes net) \<and>
         (\<forall>(k, n) \<in> set (nodes net).
            k \<notin> fst ` set m \<longrightarrow>
              activation_at net' k = Some 0 \<and>
              prevActivation_at net' k = Some (activation n)) \<and>
         (\<forall>(k, n) \<in> set (nodes net).
            \<forall>a. (k, a) \<in> set m \<longrightarrow> activation_at net' k = Some a) \<and>
         activationHistory net' =
           [\<lparr>h_iteration = 0, h_activations = map (\<lambda>(k, n). info_of k n) (nodes net')\<rparr>] \<and>
         iterationCount net' = 1"
    unfolding Let_def
  proof (intro conjI)
    show "nodes (setInitialActivation (IdMap m) val net) =
           map (\<lambda>(k, n).
                  (k, case map_of m k of
                        Some a \<Rightarrow> n\<lparr>prevActivation := 0, activation := a\<rparr>
                      | None \<Rightarrow> n\<lparr>prevActivation := activation n, activation := 0\<rparr>))
             (nodes net)"
      by (rule setInitialActivation_map_nodes[OF d dm])
    show "\<forall>(k, n) \<in> set (nodes net).
            k \<notin> fst ` set m \<longrightarrow>
              activation_at (setInitialActivation (IdMap m) val net) k = Some 0 \<and>
              prevActivation_at (setInitialActivation (IdMap m) val net) k =
                Some (activation n)"
    proof (intro ballI, clarify)
      fix k n assume kn: "(k, n) \<in> set (nodes net)" and k: "k \<notin> fst ` set m"
      have 1: "map_of (nodes net) k = Some n" using d kn by simp
      have 2: "map_of m k = None" using k by (simp add: map_of_eq_None_iff)
      show "activation_at (setInitialActivation (IdMap m) val net) k = Some 0 \<and>
            prevActivation_at (setInitialActivation (IdMap m) val net) k = Some (activation n)"
        by (simp add: activation_at_def prevActivation_at_def
            setInitialActivation_map_nodes[OF d dm] map_of_map_values 1 2)
    qed
    show "\<forall>(k, n) \<in> set (nodes net).
            \<forall>a. (k, a) \<in> set m \<longrightarrow>
              activation_at (setInitialActivation (IdMap m) val net) k = Some a"
    proof (intro ballI allI impI, clarify)
      fix k n a assume kn: "(k, n) \<in> set (nodes net)" and ka: "(k, a) \<in> set m"
      have 1: "map_of (nodes net) k = Some n" using d kn by simp
      have 2: "map_of m k = Some a" using dm ka by simp
      show "activation_at (setInitialActivation (IdMap m) val net) k = Some a"
        by (simp add: activation_at_def setInitialActivation_map_nodes[OF d dm]
            map_of_map_values 1 2)
    qed
  qed (simp_all add: setInitialActivation_history)
qed

theorem setInitialActivation_reseed_witness:
  "wf_network net_AB1 \<and> distinct (map fst [(''B'', 0.5::real), (''Z'', 1)]) \<and>
   nodes (setInitialActivation (IdList [''B'', ''Z'']) (Some 1) net_AB1) =
     [(''A'', \<lparr>node_id = ''A'', label = ''a'', category = None,
               connections = [(''B'', 0.8)], activation = 0, prevActivation = 1,
               metadata = []\<rparr>),
      (''B'', \<lparr>node_id = ''B'', label = ''b'', category = None,
               connections = [(''A'', 0.8)], activation = 1, prevActivation = 0,
               metadata = []\<rparr>)] \<and>
   nodes (setInitialActivation (IdMap [(''B'', 0.5), (''Z'', 1)]) None net_AB1) =
     [(''A'', \<lparr>node_id = ''A'', label = ''a'', category = None,
               connections = [(''B'', 0.8)], activation = 0, prevActivation = 1,
               metadata = []\<rparr>),
      (''B'', \<lparr>node_id = ''B'', label = ''b'', category = None,
               connections = [(''A'', 0.8)], activation = 0.5, prevActivation = 0,
               metadata = []\<rparr>)]"
proof -
  have wf: "wf_network net_AB1" by (simp add: wf_network_def wf_nodes_def net_AB1_def)
  have dm: "distinct (map fst [(''B'', 0.5::real), (''Z'', 1)])" by simp
  show ?thesis
    using setInitialActivation_reseed[of net_AB1 "Some 1" "[''B'', ''Z'']"
            "[(''B'', 0.5), (''Z'', 1)]"]
      setInitialActivation_reseed[of net_AB1 None "[''B'', ''Z'']"
            "[(''B'', 0.5), (''Z'', 1)]"] wf
    by (simp add: Let_def net_AB1_def)
qed

subsection \<open>identifyEmergentPatterns\<close>

lemma active_edges_active:
  "(a, b) \<in> (active_edges ns thr)\<^sup>* \<Longrightarrow> is_active ns thr a \<Longrightarrow> is_active ns thr b"
  by (induction rule: rtrancl_induct) (auto simp: active_edges_def)

lemma bfs_correct:
  assumes "set queue \<subseteq> {k. is_active ns thr k}"
  shows "\<exists>V new. bfs ns thr queue visited pat = Inr (V, pat @ new) \<and>
           visited \<subseteq> V \<and> set queue \<subseteq> V \<and>
           distinct (map c_id new) \<and> set (map c_id new) = V - visited \<and>
           (\<forall>c \<in> set new. \<exists>n. map_of ns (c_id c) = Some n \<and> c = info_of (c_id c) n) \<and>
           (\<forall>x \<in> V - visited. \<exists>q \<in> set queue. (q, x) \<in> (active_edges ns thr)\<^sup>*) \<and>
           (\<forall>x \<in> V - visited. \<forall>y. (x, y) \<in> active_edges ns thr \<longrightarrow> y \<in> V)"
  using assms
proof (induction ns thr queue visited pat rule: bfs.induct)
  case (1 ns thr visited pat)
  show ?case by simp
next
  case (2 ns thr cur queue visited pat)
  let ?E = "active_edges ns thr"
  have cur_active: "is_active ns thr cur" and q_active: "set queue \<subseteq> {k. is_active ns thr k}"
    using "2.prems" by auto
  show ?case
  proof (cases "cur \<in> visited")
    case True
    from "2.IH"(1)[OF True q_active]
    obtain V new where r: "bfs ns thr queue visited pat = Inr (V, pat @ new)"
      "visited \<subseteq> V" "set queue \<subseteq> V" "distinct (map c_id new)"
      "set (map c_id new) = V - visited"
      "\<forall>c \<in> set new. \<exists>n. map_of ns (c_id c) = Some n \<and> c = info_of (c_id c) n"
      "\<forall>x \<in> V - visited. \<exists>q \<in> set queue. (q, x) \<in> ?E\<^sup>*"
      "\<forall>x \<in> V - visited. \<forall>y. (x, y) \<in> ?E \<longrightarrow> y \<in> V"
      by blast
    show ?thesis
      apply (rule exI[of _ V], rule exI[of _ new])
      using r True by auto
  next
    case False
    obtain node where node: "map_of ns cur = Some node" and act: "activation node \<ge> thr"
      using cur_active by (auto simp: is_active_def split: option.splits)
    let ?nbrs = "map fst (filter (\<lambda>(connectedId, weight).
                                       connectedId \<notin> insert cur visited \<and>
                                       (case map_of ns connectedId of
                                          None \<Rightarrow> False
                                        | Some connectedNode \<Rightarrow>
                                            activation connectedNode \<ge> thr))
                               (connections node))"
    have nbrs_set: "set ?nbrs = {c \<in> fst ` set (connections node).
                                   c \<notin> insert cur visited \<and> is_active ns thr c}"
      by (force simp: is_active_def image_iff split: option.splits)
    have q': "set (queue @ ?nbrs) \<subseteq> {k. is_active ns thr k}"
      using q_active nbrs_set by auto
    from "2.IH"(2)[OF False node act q']
    obtain V new where r:
      "bfs ns thr (queue @ ?nbrs) (insert cur visited) (pat @ [info_of cur node]) =
         Inr (V, (pat @ [info_of cur node]) @ new)"
      "insert cur visited \<subseteq> V" "set (queue @ ?nbrs) \<subseteq> V" "distinct (map c_id new)"
      "set (map c_id new) = V - insert cur visited"
      "\<forall>c \<in> set new. \<exists>n. map_of ns (c_id c) = Some n \<and> c = info_of (c_id c) n"
      "\<forall>x \<in> V - insert cur visited. \<exists>q \<in> set (queue @ ?nbrs). (q, x) \<in> ?E\<^sup>*"
      "\<forall>x \<in> V - insert cur visited. \<forall>y. (x, y) \<in> ?E \<longrightarrow> y \<in> V"
      by blast
    have eq: "bfs ns thr (cur # queue) visited pat = Inr (V, pat @ (info_of cur node # new))"
      using False node act r(1) by simp
    have cid: "c_id (info_of cur node) = cur" by (simp add: info_of_def)
    have nb_edge: "(cur, c) \<in> ?E" if "c \<in> set ?nbrs" for c
      using that nbrs_set cur_active node by (auto simp: active_edges_def)
    have reach: "\<exists>q \<in> set (cur # queue). (q, x) \<in> ?E\<^sup>*" if x: "x \<in> V - visited" for x
    proof (cases "x = cur")
      case True
      then show ?thesis by auto
    next
      case False
      then obtain q where q: "q \<in> set (queue @ ?nbrs)" "(q, x) \<in> ?E\<^sup>*"
        using r(7) x by blast
      show ?thesis
      proof (cases "q \<in> set queue")
        case True
        then show ?thesis using q(2) by auto
      next
        case False
        then have "q \<in> set ?nbrs" using q(1) by auto
        then have "(cur, x) \<in> ?E\<^sup>*"
          using nb_edge q(2) by (meson converse_rtrancl_into_rtrancl)
        then show ?thesis by auto
      qed
    qed
    have closed: "y \<in> V" if x: "x \<in> V - visited" and e: "(x, y) \<in> ?E" for x y
    proof (cases "x = cur")
      case True
      then have "y \<in> fst ` set (connections node)" "is_active ns thr y"
        using e node by (auto simp: active_edges_def)
      then have "y \<in> insert cur visited \<or> y \<in> set ?nbrs"
        unfolding nbrs_set by blast
      then show ?thesis using r(2,3) by auto
    next
      case False
      then show ?thesis using r(8) x e by blast
    qed
    show ?thesis
      apply (rule exI[of _ V], rule exI[of _ "info_of cur node # new"])
      apply (intro conjI)
      subgoal by (rule eq)
      subgoal using r(2) by auto
      subgoal using r(2,3) by auto
      subgoal using r(4,5) by (auto simp: cid)
      subgoal using r(2,5) False by (auto simp: cid)
      subgoal using r(6) node by (auto simp: cid)
      subgoal using reach by blast
      subgoal using closed by blast
      done
  qed
qed


lemma foldl_sum: "foldl (\<lambda>s n. s + f n) a xs = a + sum_list (map f xs)"
  for a :: real
  by (induction xs arbitrary: a) simp_all

lemma component_closed:
  assumes "component ns thr S" "(a, b) \<in> (active_edges ns thr)\<^sup>*"
  shows "a \<in> S \<longleftrightarrow> b \<in> S"
  using assms(2)
proof (induction rule: rtrancl_induct)
  case base
  show ?case by simp
next
  case (step y z)
  then show ?case using assms(1) by (auto simp: component_def)
qed

lemma patterns_cover_append:
  "patterns_cover (ps @ [p]) = patterns_cover ps \<union> set (pattern_ids p)"
  by (auto simp: patterns_cover_def)

lemma patterns_cover_member: "p \<in> set ps \<Longrightarrow> set (pattern_ids p) \<subseteq> patterns_cover ps"
  by (auto simp: patterns_cover_def)

lemma patterns_inv_step:
  assumes inv: "patterns_inv ns thr patterns"
    and vis: "visited = patterns_cover patterns"
    and r: "is_active ns thr r" "r \<notin> visited"
    and bfs: "visited \<subseteq> V" "r \<in> V"
      "distinct (map c_id new)" "set (map c_id new) = V - visited"
      "\<forall>c \<in> set new. \<exists>n. map_of ns (c_id c) = Some n \<and> c = info_of (c_id c) n"
      "\<forall>x \<in> V - visited. (r, x) \<in> (active_edges ns thr)\<^sup>*"
      "\<forall>x \<in> V - visited. \<forall>y. (x, y) \<in> active_edges ns thr \<longrightarrow> y \<in> V"
    and p: "p = \<lparr>patternId = u, concepts = new,
                 averageActivation =
                   foldl (\<lambda>sum n. sum + c_activation n) 0 new / real (length new)\<rparr>"
  shows "patterns_inv ns thr (patterns @ [p]) \<and> V = patterns_cover (patterns @ [p])"
proof -
  let ?E = "active_edges ns thr"
  have ids: "pattern_ids p = map c_id new" by (simp add: pattern_ids_def p)
  have cov: "V = patterns_cover (patterns @ [p])"
    unfolding patterns_cover_append ids bfs(4) using vis bfs(1) by auto
  have rnew: "r \<in> set (pattern_ids p)" unfolding ids bfs(4) using bfs(2) r(2) by simp
  have disj: "set (pattern_ids p) \<inter> visited = {}" unfolding ids bfs(4) by auto
  have old: "set (pattern_ids q) \<subseteq> visited" if "q \<in> set patterns" for q
    using patterns_cover_member[OF that] vis by simp
  have fresh: "p \<notin> set patterns"
  proof
    assume "p \<in> set patterns"
    then have "r \<in> visited" using old rnew by blast
    then show False using r(2) by simp
  qed
  have active_new: "is_active ns thr x" if "x \<in> V - visited" for x
  proof -
    have "(r, x) \<in> ?E\<^sup>*" using bfs(6) that by blast
    then show ?thesis using r(1) by (rule active_edges_active)
  qed
  have members: "\<forall>c \<in> set (concepts p).
            \<exists>n. map_of ns (c_id c) = Some n \<and> activation n \<ge> thr \<and> c = info_of (c_id c) n"
  proof
    fix c assume c: "c \<in> set (concepts p)"
    then have cn: "c \<in> set new" by (simp add: p)
    then obtain n where n: "map_of ns (c_id c) = Some n" "c = info_of (c_id c) n"
      using bfs(5) by blast
    have "c_id c \<in> set (map c_id new)" using cn by simp
    then have "c_id c \<in> V - visited" unfolding bfs(4) .
    then have "is_active ns thr (c_id c)" by (rule active_new)
    then have "activation n \<ge> thr" using n(1) by (simp add: is_active_def)
    then show "\<exists>n. map_of ns (c_id c) = Some n \<and> activation n \<ge> thr \<and> c = info_of (c_id c) n"
      using n by blast
  qed
  have ok: "pattern_ok ns thr p"
    unfolding pattern_ok_def
  proof (intro conjI)
    show "pattern_ids p \<noteq> []" using rnew by auto
    show "distinct (pattern_ids p)" unfolding ids by (rule bfs(3))
    show "\<forall>c \<in> set (concepts p).
            \<exists>n. map_of ns (c_id c) = Some n \<and> activation n \<ge> thr \<and> c = info_of (c_id c) n"
      by (rule members)
    show "averageActivation p =
        sum_list (map c_activation (concepts p)) / real (length (concepts p))"
      by (simp add: p foldl_sum)
    have "\<forall>x \<in> set (pattern_ids p). (r, x) \<in> ?E\<^sup>*"
      unfolding ids bfs(4) by (rule bfs(6))
    then show "\<exists>r \<in> set (pattern_ids p). \<forall>x \<in> set (pattern_ids p). (r, x) \<in> ?E\<^sup>*"
      using rnew by blast
  qed
  have invc: "S \<inter> visited = {} \<or> (\<exists>q \<in> set patterns. set (pattern_ids q) = S)"
    if "component ns thr S" for S
    using inv that unfolding patterns_inv_def vis by blast
  have comp: "S \<inter> V = {} \<or> (\<exists>q \<in> set (patterns @ [p]). set (pattern_ids q) = S)"
    if S: "component ns thr S" for S
  proof -
    from invc[OF S] show ?thesis
    proof
      assume "\<exists>q \<in> set patterns. set (pattern_ids q) = S"
      then show ?thesis by auto
    next
      assume Sv: "S \<inter> visited = {}"
      show ?thesis
      proof (cases "r \<in> S")
        case True
        have sub: "V - visited \<subseteq> S"
        proof
          fix x assume "x \<in> V - visited"
          then have "(r, x) \<in> ?E\<^sup>*" using bfs(6) by blast
          then show "x \<in> S" using component_closed[OF S] True by blast
        qed
        have fwd: "x \<in> V - visited" if "(r, x) \<in> ?E\<^sup>*" for x
          using that
        proof (induction rule: rtrancl_induct)
          case base
          show ?case using bfs(2) r(2) by simp
        next
          case (step y z)
          have "z \<in> V" using bfs(7) step by blast
          moreover have "(r, z) \<in> ?E\<^sup>*"
            using step(1,2) by (rule rtrancl.rtrancl_into_rtrancl)
          then have "z \<in> S"
            using component_closed[OF S, of r z] True by simp
          ultimately show ?case using Sv by blast
        qed
        have "S \<subseteq> V - visited"
        proof
          fix t assume "t \<in> S"
          then have "(r, t) \<in> ?E\<^sup>*" using S True unfolding component_def by blast
          then show "t \<in> V - visited" by (rule fwd)
        qed
        then have "set (pattern_ids p) = S" unfolding ids bfs(4) using sub by blast
        then show ?thesis by simp
      next
        case False
        have "S \<inter> V = {}"
        proof (rule ccontr)
          assume "S \<inter> V \<noteq> {}"
          then obtain x where x: "x \<in> S" "x \<in> V" by blast
          then have "x \<in> V - visited" using Sv by blast
          then have "(r, x) \<in> ?E\<^sup>*" using bfs(6) by blast
          then show False using component_closed[OF S, of r x] x(1) False by simp
        qed
        then show ?thesis by simp
      qed
    qed
  qed
  have d: "distinct patterns" using inv unfolding patterns_inv_def by blast
  have oks: "q \<in> set patterns \<Longrightarrow> pattern_ok ns thr q" for q
    using inv unfolding patterns_inv_def by blast
  have pw: "q \<in> set patterns \<Longrightarrow> q' \<in> set patterns \<Longrightarrow> q \<noteq> q' \<Longrightarrow>
            set (pattern_ids q) \<inter> set (pattern_ids q') = {}" for q q'
    using inv unfolding patterns_inv_def by blast
  have "patterns_inv ns thr (patterns @ [p])"
    unfolding patterns_inv_def
  proof (intro conjI)
    show "distinct (patterns @ [p])" using d fresh by simp
    show "\<forall>q \<in> set (patterns @ [p]). pattern_ok ns thr q"
      using oks ok by auto
    show "\<forall>q \<in> set (patterns @ [p]). \<forall>q' \<in> set (patterns @ [p]).
         q \<noteq> q' \<longrightarrow> set (pattern_ids q) \<inter> set (pattern_ids q') = {}"
    proof (intro ballI impI)
      fix q q' assume pq: "q \<in> set (patterns @ [p])" "q' \<in> set (patterns @ [p])" "q \<noteq> q'"
      then consider "q \<in> set patterns" "q' \<in> set patterns"
        | "q \<in> set patterns" "q' = p" | "q = p" "q' \<in> set patterns"
        by auto
      then show "set (pattern_ids q) \<inter> set (pattern_ids q') = {}"
      proof cases
        case 1
        then show ?thesis using pw pq(3) by blast
      next
        case 2
        then show ?thesis using old[of q] disj by blast
      next
        case 3
        then show ?thesis using old[of q'] disj by blast
      qed
    qed
    show "\<forall>S. component ns thr S \<longrightarrow>
            S \<inter> patterns_cover (patterns @ [p]) = {} \<or>
            (\<exists>q \<in> set (patterns @ [p]). set (pattern_ids q) = S)"
      unfolding cov[symmetric] using comp by blast
  qed
  then show ?thesis using cov by simp
qed


lemma patterns_loop_correct:
  assumes "\<forall>node \<in> set actives. is_active ns thr (node_id node)"
    and "patterns_inv ns thr patterns" and "visited = patterns_cover patterns"
  shows "\<exists>ps. patterns_loop ns thr uuids actives visited patterns = Inr ps \<and>
              patterns_inv ns thr ps \<and>
              visited \<union> node_id ` set actives \<subseteq> patterns_cover ps"
  using assms
proof (induction actives arbitrary: visited patterns)
  case Nil
  then show ?case by simp
next
  case (Cons node rest)
  let ?r = "node_id node"
  have rest: "\<forall>node \<in> set rest. is_active ns thr (node_id node)"
    using Cons.prems(1) by simp
  show ?case
  proof (cases "?r \<in> visited")
    case True
    from Cons.IH[OF rest Cons.prems(2,3)]
    obtain ps where ps: "patterns_loop ns thr uuids rest visited patterns = Inr ps"
      "patterns_inv ns thr ps" "visited \<union> node_id ` set rest \<subseteq> patterns_cover ps"
      by blast
    show ?thesis
      apply (rule exI[of _ ps])
      using ps True by auto
  next
    case False
    have ract: "is_active ns thr ?r" using Cons.prems(1) by simp
    then have q: "set [?r] \<subseteq> {k. is_active ns thr k}" by simp
    from bfs_correct[OF q, of visited "[]"]
    obtain V new where b: "bfs ns thr [?r] visited [] = Inr (V, new)"
      "visited \<subseteq> V" "?r \<in> V" "distinct (map c_id new)"
      "set (map c_id new) = V - visited"
      "\<forall>c \<in> set new. \<exists>n. map_of ns (c_id c) = Some n \<and> c = info_of (c_id c) n"
      "\<forall>x \<in> V - visited. (?r, x) \<in> (active_edges ns thr)\<^sup>*"
      "\<forall>x \<in> V - visited. \<forall>y. (x, y) \<in> active_edges ns thr \<longrightarrow> y \<in> V"
      by auto
    define p where "p = \<lparr>patternId = uuids (length patterns), concepts = new,
                 averageActivation =
                   foldl (\<lambda>sum n. sum + c_activation n) 0 new / real (length new)\<rparr>"
    have "?r \<in> set (map c_id new)" unfolding b(5) using b(3) False by simp
    then have ne: "0 < length new" by auto
    from patterns_inv_step[OF Cons.prems(2,3) ract False b(2-8) p_def]
    have inv': "patterns_inv ns thr (patterns @ [p])" and cov': "V = patterns_cover (patterns @ [p])"
      by simp_all
    from Cons.IH[OF rest inv' cov']
    obtain ps where ps: "patterns_loop ns thr uuids rest V (patterns @ [p]) = Inr ps"
      "patterns_inv ns thr ps" "V \<union> node_id ` set rest \<subseteq> patterns_cover ps"
      by blast
    have "patterns_loop ns thr uuids (node # rest) visited patterns = Inr ps"
      using False b(1) ne ps(1) by (simp add: p_def)
    moreover have "visited \<union> node_id ` set (node # rest) \<subseteq> patterns_cover ps"
      using ps(3) b(2,3) by auto
    ultimately show ?thesis using ps(2) by blast
  qed
qed

lemma patterns_inv_sorted:
  assumes "patterns_inv ns thr ps" "set ps' = set ps" "distinct ps'"
  shows "patterns_inv ns thr ps'"
proof -
  have "patterns_cover ps' = patterns_cover ps"
    using assms(2) by (simp add: patterns_cover_def)
  then show ?thesis
    using assms unfolding patterns_inv_def by simp
qed

lemma identifyEmergentPatterns_inv:
  assumes wf: "wf_network net"
    and thr_def: "thr = (case threshold of None \<Rightarrow> activationThreshold (params net) | Some t \<Rightarrow> t)"
  shows "\<exists>ps. fst (identifyEmergentPatterns uuids threshold net) = Inr ps \<and>
              patterns_inv (nodes net) thr ps \<and>
              patterns_cover ps = {k. is_active (nodes net) thr k} \<and>
              sorted_wrt (\<lambda>p q. averageActivation p \<ge> averageActivation q) ps"
proof -
  let ?ns = "nodes net"
  let ?act = "filter (\<lambda>node. activation node \<ge> thr) (map snd ?ns)"
  have d: "distinct (map fst ?ns)" using wf by (simp add: wf_network_def wf_nodes_def)
  have ids: "node_id n = k" if "(k, n) \<in> set ?ns" for k n
    using wf that by (auto simp: wf_network_def wf_nodes_def list_all_iff)
  have a1: "\<forall>node \<in> set ?act. is_active ?ns thr (node_id node)"
  proof
    fix node assume "node \<in> set ?act"
    then obtain k where k: "(k, node) \<in> set ?ns" and a: "activation node \<ge> thr" by auto
    have "map_of ?ns k = Some node" using d k by simp
    then show "is_active ?ns thr (node_id node)"
      using ids[OF k] a by (simp add: is_active_def)
  qed
  have a2: "patterns_inv ?ns thr []"
    by (simp add: patterns_inv_def patterns_cover_def)
  have a3: "{} = patterns_cover []" by (simp add: patterns_cover_def)
  from patterns_loop_correct[OF a1 a2 a3, of uuids]
  obtain ps0 where ps0: "patterns_loop ?ns thr uuids ?act {} [] = Inr ps0"
    "patterns_inv ?ns thr ps0" "node_id ` set ?act \<subseteq> patterns_cover ps0"
    by auto
  let ?ps = "sort_key (\<lambda>p. - averageActivation p) ps0"
  have res: "fst (identifyEmergentPatterns uuids threshold net) = Inr ?ps"
    using ps0(1) by (simp add: identifyEmergentPatterns_def Let_def thr_def)
  have d0: "distinct ps0" using ps0(2) unfolding patterns_inv_def by blast
  have inv: "patterns_inv ?ns thr ?ps"
    by (rule patterns_inv_sorted[OF ps0(2)]) (simp_all add: d0)
  have cov_eq: "patterns_cover ?ps = patterns_cover ps0"
    by (simp add: patterns_cover_def)
  have sub1: "patterns_cover ps0 \<subseteq> {k. is_active ?ns thr k}"
  proof
    fix x assume "x \<in> patterns_cover ps0"
    then obtain p where p: "p \<in> set ps0" "x \<in> set (pattern_ids p)"
      by (auto simp: patterns_cover_def)
    have "pattern_ok ?ns thr p" using ps0(2) p(1) unfolding patterns_inv_def by blast
    then have "\<forall>c \<in> set (concepts p). \<exists>n. map_of ?ns (c_id c) = Some n \<and> activation n \<ge> thr"
      unfolding pattern_ok_def by blast
    then show "x \<in> {k. is_active ?ns thr k}"
      using p(2) by (auto simp: pattern_ids_def is_active_def)
  qed
  have sub2: "{k. is_active ?ns thr k} \<subseteq> patterns_cover ps0"
  proof
    fix k assume "k \<in> {k. is_active ?ns thr k}"
    then obtain n where n: "map_of ?ns k = Some n" "activation n \<ge> thr"
      by (auto simp: is_active_def split: option.splits)
    then have kn: "(k, n) \<in> set ?ns" by (simp add: map_of_SomeD)
    then have "n \<in> set ?act" using n(2) by force
    then have "node_id n \<in> patterns_cover ps0" using ps0(3) by blast
    then show "k \<in> patterns_cover ps0" using ids[OF kn] by simp
  qed
  have srt: "sorted_wrt (\<lambda>p q. averageActivation p \<ge> averageActivation q) ?ps"
    by (rule sorted_desc_sort_key)
  show ?thesis
    using res inv cov_eq sub1 sub2 srt by auto
qed


lemma build_ba:
  "(case addConcept ''y'' None (Some ''b'') u new_ConceptNetwork of
      Inl e \<Rightarrow> Inl e
    | Inr (i1, n1) \<Rightarrow>
       (case addConcept ''x'' None (Some ''a'') u n1 of
          Inl e \<Rightarrow> Inl e
        | Inr (i2, n2) \<Rightarrow>
           (case addConnection i1 i2 (Some 0.5) (Some False) n2 of
              Inl e \<Rightarrow> Inl e
            | Inr n3 \<Rightarrow> Inr (setInitialActivation (IdList [''a'', ''b'']) (Some 1) n3)))) =
   Inr net_ba"
  by (simp add: addConcept_def new_ConceptNetwork_def map_has_def new_ConceptNode_def
      addConnection_def getConcept_def node_addConnection_def net_ba_def Let_def
      setInitialActivation_def updateActivation_def recordActivationState_def)

text \<open>
  C9, as stated, fails: in the graph with the one-way edge from b to a, both active, the
  node a reaches no other active node, yet the only pattern is the one started at b,
  which contains b and a; a yields no singleton pattern.
\<close>

theorem identifyEmergentPatterns_counterexample:
  "activation_at net_ba ''a'' = Some 1 \<and> activation_at net_ba ''b'' = Some 1 \<and>
   edge_weight net_ba ''b'' ''a'' = Some 0.5 \<and> edge_weight net_ba ''a'' ''b'' = None \<and>
   fst (identifyEmergentPatterns uuid_p (Some 0.5) net_ba) =
     Inr [\<lparr>patternId = ''p'',
           concepts =
             [\<lparr>c_id = ''b'', c_label = ''y'', c_activation = 1, c_category = None\<rparr>,
              \<lparr>c_id = ''a'', c_label = ''x'', c_activation = 1, c_category = None\<rparr>],
           averageActivation = 1\<rparr>]"
  by (simp add: activation_at_def edge_weight_def net_ba_def identifyEmergentPatterns_def
      info_of_def uuid_p_def)

lemma distinct_singleton: "distinct xs \<Longrightarrow> set xs = {a} \<Longrightarrow> xs = [a]"
proof -
  assume d: "distinct xs" and s: "set xs = {a}"
  then have "length xs = 1" using distinct_card[OF d] by simp
  then obtain x where "xs = [x]" by (cases xs) auto
  then show "xs = [a]" using s by simp
qed

text \<open>
  C9, amended. In a well-formed graph \<^verbatim>\<open>identifyEmergentPatterns\<close> returns (it never
  throws) a list of pairwise different patterns whose member lists are nonempty,
  duplicate-free, pairwise disjoint and together hold exactly the active nodes; the
  members of a pattern are snapshots of nodes all reachable along active edges from one
  member, \<open>averageActivation\<close> is their arithmetic mean, and the list is in descending
  order of \<open>averageActivation\<close>. Every component is the node set of one pattern; an
  active set made of two disjoint components gives exactly two patterns, one per
  component; an active node with no active edge to or from another node gives a
  singleton pattern; an empty active set gives the empty list.
\<close>

theorem identifyEmergentPatterns_components:
  "wf_network net \<longrightarrow>
     (let thr = (case threshold of None \<Rightarrow> activationThreshold (params net) | Some t \<Rightarrow> t);
          ns = nodes net; E = active_edges ns thr; A = {k. is_active ns thr k}
      in \<exists>ps. fst (identifyEmergentPatterns uuids threshold net) = Inr ps \<and>
           distinct ps \<and> (\<Union>p \<in> set ps. set (pattern_ids p)) = A \<and>
           (\<forall>p \<in> set ps.
              pattern_ids p \<noteq> [] \<and> distinct (pattern_ids p) \<and>
              (\<forall>c \<in> set (concepts p).
                 \<exists>n. map_of ns (c_id c) = Some n \<and> c = info_of (c_id c) n) \<and>
              (\<exists>r \<in> set (pattern_ids p). \<forall>x \<in> set (pattern_ids p). (r, x) \<in> E\<^sup>*) \<and>
              averageActivation p =
                sum_list (map c_activation (concepts p)) / real (length (concepts p))) \<and>
           (\<forall>p \<in> set ps. \<forall>q \<in> set ps.
              p \<noteq> q \<longrightarrow> set (pattern_ids p) \<inter> set (pattern_ids q) = {}) \<and>
           sorted_wrt (\<lambda>p q. averageActivation p \<ge> averageActivation q) ps \<and>
           (\<forall>S. component ns thr S \<longrightarrow> (\<exists>p \<in> set ps. set (pattern_ids p) = S)) \<and>
           (\<forall>S1 S2. component ns thr S1 \<and> component ns thr S2 \<and>
                     S1 \<inter> S2 = {} \<and> S1 \<union> S2 = A \<longrightarrow>
                length ps = 2 \<and>
                (\<exists>p1 \<in> set ps. \<exists>p2 \<in> set ps.
                   set (pattern_ids p1) = S1 \<and> set (pattern_ids p2) = S2)) \<and>
           (\<forall>a. is_active ns thr a \<and> (\<forall>b. b \<noteq> a \<longrightarrow> (a, b) \<notin> E \<and> (b, a) \<notin> E) \<longrightarrow>
                (\<exists>p \<in> set ps. pattern_ids p = [a])) \<and>
           (A = {} \<longrightarrow> ps = []))"
proof
  assume wf: "wf_network net"
  define thr where "thr = (case threshold of None \<Rightarrow> activationThreshold (params net) | Some t \<Rightarrow> t)"
  let ?ns = "nodes net"
  let ?E = "active_edges ?ns thr"
  let ?A = "{k. is_active ?ns thr k}"
  from identifyEmergentPatterns_inv[OF wf thr_def, of uuids]
  obtain ps where ps: "fst (identifyEmergentPatterns uuids threshold net) = Inr ps"
    "patterns_inv ?ns thr ps" "patterns_cover ps = ?A"
    "sorted_wrt (\<lambda>p q. averageActivation p \<ge> averageActivation q) ps"
    by blast
  have d: "distinct ps" using ps(2) unfolding patterns_inv_def by blast
  have ok: "pattern_ok ?ns thr p" if "p \<in> set ps" for p
    using ps(2) that unfolding patterns_inv_def by blast
  have pw: "set (pattern_ids p) \<inter> set (pattern_ids q) = {}"
    if "p \<in> set ps" "q \<in> set ps" "p \<noteq> q" for p q
    using ps(2) that unfolding patterns_inv_def by blast
  have cov: "(\<Union>p \<in> set ps. set (pattern_ids p)) = ?A"
    using ps(3) by (simp add: patterns_cover_def)
  have comp: "\<exists>p \<in> set ps. set (pattern_ids p) = S" if S: "component ?ns thr S" for S
  proof -
    have "S \<inter> patterns_cover ps = {} \<or> (\<exists>p \<in> set ps. set (pattern_ids p) = S)"
      using ps(2) S unfolding patterns_inv_def by blast
    moreover have "S \<inter> patterns_cover ps \<noteq> {}"
      using S unfolding ps(3) component_def by blast
    ultimately show ?thesis by blast
  qed
  have mem: "pattern_ids p \<noteq> [] \<and> distinct (pattern_ids p) \<and>
              (\<forall>c \<in> set (concepts p).
                 \<exists>n. map_of ?ns (c_id c) = Some n \<and> c = info_of (c_id c) n) \<and>
              (\<exists>r \<in> set (pattern_ids p). \<forall>x \<in> set (pattern_ids p). (r, x) \<in> ?E\<^sup>*) \<and>
              averageActivation p =
                sum_list (map c_activation (concepts p)) / real (length (concepts p))"
    if "p \<in> set ps" for p
    using ok[OF that] unfolding pattern_ok_def by blast
  have two: "length ps = 2 \<and>
                (\<exists>p1 \<in> set ps. \<exists>p2 \<in> set ps.
                   set (pattern_ids p1) = S1 \<and> set (pattern_ids p2) = S2)"
    if c: "component ?ns thr S1" "component ?ns thr S2" "S1 \<inter> S2 = {}" "S1 \<union> S2 = ?A"
    for S1 S2
  proof -
    obtain p1 where p1: "p1 \<in> set ps" "set (pattern_ids p1) = S1" using comp[OF c(1)] by blast
    obtain p2 where p2: "p2 \<in> set ps" "set (pattern_ids p2) = S2" using comp[OF c(2)] by blast
    have "S1 \<noteq> {}" using c(1) by (simp add: component_def)
    then have ne: "p1 \<noteq> p2" using p1(2) p2(2) c(3) by auto
    have "p = p1 \<or> p = p2" if p: "p \<in> set ps" for p
    proof -
      have "pattern_ids p \<noteq> []" using mem[OF p] by blast
      then obtain x where x: "x \<in> set (pattern_ids p)" by (cases "pattern_ids p") auto
      then have "x \<in> ?A" using cov p by blast
      then have "x \<in> S1 \<or> x \<in> S2" using c(4) by blast
      then show ?thesis
      proof
        assume "x \<in> S1"
        then have "set (pattern_ids p) \<inter> set (pattern_ids p1) \<noteq> {}" using x p1(2) by blast
        then show ?thesis using pw[OF p p1(1)] by blast
      next
        assume "x \<in> S2"
        then have "set (pattern_ids p) \<inter> set (pattern_ids p2) \<noteq> {}" using x p2(2) by blast
        then show ?thesis using pw[OF p p2(1)] by blast
      qed
    qed
    then have "set ps = {p1, p2}" using p1(1) p2(1) by blast
    then have "card (set ps) = 2" using ne by simp
    then have "length ps = 2" using d by (simp add: distinct_card)
    then show ?thesis using p1 p2 by blast
  qed
  have single: "\<exists>p \<in> set ps. pattern_ids p = [a]"
    if a: "is_active ?ns thr a" "\<forall>b. b \<noteq> a \<longrightarrow> (a, b) \<notin> ?E \<and> (b, a) \<notin> ?E" for a
  proof -
    have "component ?ns thr {a}"
      unfolding component_def using a by auto
    then obtain p where p: "p \<in> set ps" "set (pattern_ids p) = {a}" using comp by blast
    have "distinct (pattern_ids p)" using mem[OF p(1)] by blast
    then have "pattern_ids p = [a]" using p(2) by (rule distinct_singleton)
    then show ?thesis using p(1) by blast
  qed
  have empty: "ps = []" if "?A = {}"
  proof (cases ps)
    case Nil
    then show ?thesis .
  next
    case (Cons p ps')
    then have p: "p \<in> set ps" by simp
    have "pattern_ids p \<noteq> []" using mem[OF p] by blast
    then obtain x where "x \<in> set (pattern_ids p)" by (cases "pattern_ids p") auto
    then have "x \<in> ?A" using cov p by blast
    then show ?thesis using that by simp
  qed
  show "let thr = (case threshold of None \<Rightarrow> activationThreshold (params net) | Some t \<Rightarrow> t);
          ns = nodes net; E = active_edges ns thr; A = {k. is_active ns thr k}
      in \<exists>ps. fst (identifyEmergentPatterns uuids threshold net) = Inr ps \<and>
           distinct ps \<and> (\<Union>p \<in> set ps. set (pattern_ids p)) = A \<and>
           (\<forall>p \<in> set ps.
              pattern_ids p \<noteq> [] \<and> distinct (pattern_ids p) \<and>
              (\<forall>c \<in> set (concepts p).
                 \<exists>n. map_of ns (c_id c) = Some n \<and> c = info_of (c_id c) n) \<and>
              (\<exists>r \<in> set (pattern_ids p). \<forall>x \<in> set (pattern_ids p). (r, x) \<in> E\<^sup>*) \<and>
              averageActivation p =
                sum_list (map c_activation (concepts p)) / real (length (concepts p))) \<and>
           (\<forall>p \<in> set ps. \<forall>q \<in> set ps.
              p \<noteq> q \<longrightarrow> set (pattern_ids p) \<inter> set (pattern_ids q) = {}) \<and>
           sorted_wrt (\<lambda>p q. averageActivation p \<ge> averageActivation q) ps \<and>
           (\<forall>S. component ns thr S \<longrightarrow> (\<exists>p \<in> set ps. set (pattern_ids p) = S)) \<and>
           (\<forall>S1 S2. component ns thr S1 \<and> component ns thr S2 \<and>
                     S1 \<inter> S2 = {} \<and> S1 \<union> S2 = A \<longrightarrow>
                length ps = 2 \<and>
                (\<exists>p1 \<in> set ps. \<exists>p2 \<in> set ps.
                   set (pattern_ids p1) = S1 \<and> set (pattern_ids p2) = S2)) \<and>
           (\<forall>a. is_active ns thr a \<and> (\<forall>b. b \<noteq> a \<longrightarrow> (a, b) \<notin> E \<and> (b, a) \<notin> E) \<longrightarrow>
                (\<exists>p \<in> set ps. pattern_ids p = [a])) \<and>
           (A = {} \<longrightarrow> ps = [])"
    unfolding Let_def thr_def[symmetric]
    apply (rule exI[of _ ps])
    apply (intro conjI)
    subgoal by (rule ps(1))
    subgoal by (rule d)
    subgoal by (rule cov)
    subgoal using mem by blast
    subgoal using pw by blast
    subgoal by (rule ps(4))
    subgoal using comp by blast
    subgoal using two by blast
    subgoal using single by blast
    subgoal using empty by blast
    done
qed


theorem identifyEmergentPatterns_components_witness:
  "wf_network net_AB1 \<and> is_active (nodes net_AB1) 0.5 ''A'' \<and>
   (\<exists>ps. fst (identifyEmergentPatterns uuid_p (Some 0.5) net_AB1) = Inr ps \<and>
         (\<exists>p. p \<in> set ps \<and> pattern_ids p = [''A''])) \<and>
   wf_network (setInitialActivation (IdList [''c1'', ''c2'']) (Some 1) net_c1c2) \<and>
   (\<exists>ps. fst (identifyEmergentPatterns uuid_p (Some 0.5)
                 (setInitialActivation (IdList [''c1'', ''c2'']) (Some 1) net_c1c2)) = Inr ps \<and>
         length ps = 2)"
proof -
  have wf: "wf_network net_AB1" by (simp add: wf_network_def wf_nodes_def net_AB1_def)
  have act: "is_active (nodes net_AB1) 0.5 k \<longleftrightarrow> k = ''A''" for k
    by (auto simp: is_active_def net_AB1_def split: if_splits)
  have iso: "\<forall>b. b \<noteq> ''A'' \<longrightarrow>
               (''A'', b) \<notin> active_edges (nodes net_AB1) 0.5 \<and>
               (b, ''A'') \<notin> active_edges (nodes net_AB1) 0.5"
    unfolding active_edges_def using act by auto
  have 1: "\<exists>ps. fst (identifyEmergentPatterns uuid_p (Some 0.5) net_AB1) = Inr ps \<and>
         (\<exists>p. p \<in> set ps \<and> pattern_ids p = [''A''])"
  proof -
    from identifyEmergentPatterns_components[of net_AB1 "Some 0.5" uuid_p] wf
    obtain ps where ps: "fst (identifyEmergentPatterns uuid_p (Some 0.5) net_AB1) = Inr ps"
      "\<forall>a. is_active (nodes net_AB1) 0.5 a \<and>
           (\<forall>b. b \<noteq> a \<longrightarrow> (a, b) \<notin> active_edges (nodes net_AB1) 0.5 \<and>
                          (b, a) \<notin> active_edges (nodes net_AB1) 0.5) \<longrightarrow>
           (\<exists>p \<in> set ps. pattern_ids p = [a])"
      unfolding Let_def by auto
    have "\<exists>p \<in> set ps. pattern_ids p = [''A'']"
      using ps(2) act[of "''A''"] iso by blast
    then show ?thesis using ps(1) by blast
  qed
  let ?n = "setInitialActivation (IdList [''c1'', ''c2'']) (Some 1) net_c1c2"
  have nodes2: "nodes ?n =
     [(''c1'', \<lparr>node_id = ''c1'', label = ''x'', category = None, connections = [],
                activation = 1, prevActivation = 0, metadata = []\<rparr>),
      (''c2'', \<lparr>node_id = ''c2'', label = ''y'', category = None, connections = [],
                activation = 1, prevActivation = 0, metadata = []\<rparr>)]"
    by (simp add: setInitialActivation_def net_c1c2_def new_ConceptNode_def
        updateActivation_def map_has_def recordActivationState_def)
  have wf2: "wf_network ?n" by (simp add: wf_network_def wf_nodes_def nodes2)
  have act2: "is_active (nodes ?n) 0.5 k \<longleftrightarrow> k = ''c1'' \<or> k = ''c2''" for k
    unfolding nodes2 by (auto simp: is_active_def split: if_splits)
  have noedge: "active_edges (nodes ?n) 0.5 = {}"
    unfolding nodes2 by (auto simp: active_edges_def split: if_splits)
  have c1: "component (nodes ?n) 0.5 {''c1''}"
    unfolding component_def noedge using act2 by simp
  have c2: "component (nodes ?n) 0.5 {''c2''}"
    unfolding component_def noedge using act2 by simp
  have un: "{''c1''} \<union> {''c2''} = {k. is_active (nodes ?n) 0.5 k}"
    using act2 by auto
  have 2: "\<exists>ps. fst (identifyEmergentPatterns uuid_p (Some 0.5) ?n) = Inr ps \<and> length ps = 2"
  proof -
    from identifyEmergentPatterns_components[of ?n "Some 0.5" uuid_p] wf2
    obtain ps where ps: "fst (identifyEmergentPatterns uuid_p (Some 0.5) ?n) = Inr ps"
      "\<forall>S1 S2. component (nodes ?n) 0.5 S1 \<and> component (nodes ?n) 0.5 S2 \<and>
                     S1 \<inter> S2 = {} \<and> S1 \<union> S2 = {k. is_active (nodes ?n) 0.5 k} \<longrightarrow>
                length ps = 2 \<and>
                (\<exists>p1 \<in> set ps. \<exists>p2 \<in> set ps.
                   set (pattern_ids p1) = S1 \<and> set (pattern_ids p2) = S2)"
      unfolding Let_def by auto
    have dj: "{''c1''} \<inter> {''c2''} = ({} :: string set)" by simp
    have "length ps = 2"
      using ps(2) c1 c2 un dj by blast
    then show ?thesis using ps(1) by blast
  qed
  show ?thesis
    using wf act[of "''A''"] 1 wf2 2 by simp
qed

subsection \<open>The sigmoid over the reals\<close>


subsection \<open>Well-formedness is an invariant\<close>

text \<open>
  The empty network is well-formed and every mutating method keeps a network
  well-formed, so the graphs that the methods can produce all satisfy \<open>wf_network\<close>.
\<close>

lemma list_all_map_entry:
  "list_all P xs \<Longrightarrow> (\<And>v. P (k, v) \<Longrightarrow> P (k, f v)) \<Longrightarrow> list_all P (AList.map_entry k f xs)"
  by (induction xs) auto

lemma wf_nodes_map_entry:
  assumes "wf_nodes ns" and "\<And>n. node_id (f n) = node_id n"
    and "\<And>n. distinct (map fst (connections n)) \<Longrightarrow> distinct (map fst (connections (f n)))"
  shows "wf_nodes (AList.map_entry k f ns)"
  using assms unfolding wf_nodes_def
  by (auto simp: map_fst_map_entry intro!: list_all_map_entry)

lemma wf_nodes_map:
  assumes "wf_nodes ns" and "\<And>n. node_id (f n) = node_id n"
    and "\<And>n. distinct (map fst (connections n)) \<Longrightarrow> distinct (map fst (connections (f n)))"
  shows "wf_nodes (map (\<lambda>(k, n). (k, f n)) ns)"
  using assms unfolding wf_nodes_def
  by (auto simp: comp_def case_prod_beta list_all_iff)

lemma wf_new: "wf_network new_ConceptNetwork"
  by (simp add: wf_network_def wf_nodes_def new_ConceptNetwork_def)

lemma wf_addConcept:
  "wf_network net \<Longrightarrow> addConcept l c i fresh net = Inr (k, net') \<Longrightarrow> wf_network net'"
  by (auto simp: addConcept_def Let_def wf_network_def wf_nodes_def map_has_iff update_fresh
      new_ConceptNode_def split: if_splits)

lemma wf_removeConcept: "wf_network net \<Longrightarrow> wf_network (snd (removeConcept x net))"
proof (cases "map_has (nodes net) x")
  case True
  assume "wf_network net"
  then show ?thesis
    unfolding wf_network_def removeConcept_nodes[OF True] wf_nodes_def
    by (auto simp: comp_def case_prod_beta list_all_iff distinct_map_filter)
next
  case False
  assume "wf_network net"
  then show ?thesis using False by (simp add: removeConcept_def)
qed

lemma wf_addConnection:
  assumes "wf_network net" "addConnection s t w b net = Inr net'"
  shows "wf_network net'"
proof -
  have 1: "wf_nodes (AList.map_entry k (node_addConnection k' v) ns)" if "wf_nodes ns" for k k' v ns
    using that
    by (rule wf_nodes_map_entry) (simp_all add: node_addConnection_def distinct_update)
  show ?thesis
    using assms 1
    by (auto simp: addConnection_def getConcept_def Let_def wf_network_def
        split: option.splits if_splits)
qed

lemma wf_removeConnection:
  assumes "wf_network net"
  shows "wf_network (snd (removeConnection s t b net))"
proof -
  have 1: "wf_nodes (AList.map_entry k (\<lambda>n. snd (node_removeConnection k' n)) ns)"
    if "wf_nodes ns" for k k' ns
    using that
    by (rule wf_nodes_map_entry) (simp_all add: node_removeConnection_def distinct_delete)
  show ?thesis
    using assms 1 by (auto simp: removeConnection_def Let_def wf_network_def)
qed

lemma wf_nodes_fold_seed:
  "wf_nodes ns \<Longrightarrow>
   wf_nodes (fold (\<lambda>x ns. if map_has ns (key x)
                           then AList.map_entry (key x) (updateActivation (val x)) ns else ns)
               xs ns)"
proof (induction xs arbitrary: ns)
  case Nil
  then show ?case by simp
next
  case (Cons x xs)
  have "wf_nodes (AList.map_entry (key x) (updateActivation (val x)) ns)"
    using Cons.prems by (rule wf_nodes_map_entry) (simp_all add: updateActivation_def)
  then show ?case using Cons by simp
qed

lemma wf_setInitialActivation:
  assumes "wf_network net"
  shows "wf_network (setInitialActivation sel v net)"
proof -
  let ?ns0 = "map (\<lambda>(k, node). (k, updateActivation 0 node)) (nodes net)"
  have 0: "wf_nodes ?ns0"
    using assms unfolding wf_network_def
    by (rule wf_nodes_map) (simp_all add: updateActivation_def)
  show ?thesis
  proof (cases sel)
    case (IdList ids)
    show ?thesis
      using wf_nodes_fold_seed[OF 0, of "\<lambda>i. i" "\<lambda>i. (case v of None \<Rightarrow> 1 | Some x \<Rightarrow> x)" ids]
      by (simp add: IdList setInitialActivation_def Let_def recordActivationState_def
          wf_network_def)
  next
    case (IdMap m)
    show ?thesis
      using wf_nodes_fold_seed[OF 0, of fst snd m]
      by (simp add: IdMap setInitialActivation_def Let_def recordActivationState_def
          wf_network_def case_prod_unfold)
  next
    case NotObject
    show ?thesis
      using 0
      by (simp add: NotObject setInitialActivation_def Let_def recordActivationState_def
          wf_network_def)
  qed
qed

lemma wf_spreadActivation:
  assumes "wf_network net"
  shows "wf_network (snd (spreadActivation (Some d) net))"
proof -
  have d: "distinct (map fst (nodes net))" using assms by (simp add: wf_network_def wf_nodes_def)
  show ?thesis
    using assms unfolding wf_network_def spreadActivation_nodes[OF d]
    by (rule wf_nodes_map) simp_all
qed

lemma wf_rounds: "wf_network net \<Longrightarrow> wf_network (rounds d k net)"
  by (induction k) (simp_all add: wf_spreadActivation)

subsection \<open>The range of the activation, in exact and in double-precision arithmetic\<close>

lemma pow2_pos [simp]: "0 < pow2 k"
  by (simp add: pow2_def)

lemma pow2_nonneg [simp]: "0 \<le> pow2 k"
  by (simp add: pow2_def)

lemma pow2_neq_0 [simp]: "pow2 k \<noteq> 0"
  by (simp add: pow2_def)

lemma pow2_add: "pow2 (a + b) = pow2 a * pow2 b"
  by (simp add: pow2_def powr_add)

lemma pow2_0 [simp]: "pow2 0 = 1"
  by (simp add: pow2_def)

lemma pow2_nat: "pow2 (int n) = 2 ^ n"
  by (simp add: pow2_def powr_realpow)

lemma pow2_mono: "a \<le> b \<Longrightarrow> pow2 a \<le> pow2 b"
  by (simp add: pow2_def)

lemma pow2_of_int: "0 \<le> k \<Longrightarrow> pow2 k = of_int (2 ^ nat k)"
  using pow2_nat[of "nat k"] by simp

lemma round_even_of_int [simp]: "round_even (of_int n) = n"
  by (simp add: round_even_def)

lemma round_even_ge: "of_int N \<le> r \<Longrightarrow> N \<le> round_even r"
proof -
  assume "of_int N \<le> r"
  then have "N \<le> \<lfloor>r\<rfloor>" by (simp add: le_floor_iff)
  then show ?thesis by (auto simp: round_even_def)
qed



lemma floor_log2_bounds:
  assumes "0 < x"
  shows "pow2 \<lfloor>log 2 x\<rfloor> \<le> x" "x < pow2 (\<lfloor>log 2 x\<rfloor> + 1)"
  using floor_log_eq_powr_iff[of x 2 "\<lfloor>log 2 x\<rfloor>"] assms
  by (simp_all add: pow2_def)

lemma floor_log2_ge: "0 < x \<Longrightarrow> pow2 m \<le> x \<Longrightarrow> m \<le> \<lfloor>log 2 x\<rfloor>"
  by (simp add: le_floor_iff le_log_iff pow2_def)

lemma floor_log2_less: "0 < x \<Longrightarrow> x < pow2 m \<Longrightarrow> \<lfloor>log 2 x\<rfloor> < m"
  by (simp add: floor_less_iff log_less_iff pow2_def)


lemma pow2_diff_52: "pow2 k / pow2 (k - 52) = 2 ^ 52"
proof -
  have "pow2 k = pow2 (k - 52) * pow2 52" using pow2_add[of "k - 52" 52] by simp
  moreover have "pow2 52 = 2 ^ 52" using pow2_nat[of 52] by simp
  ultimately show ?thesis by simp
qed

lemma fl_round_pos:
  "0 < x \<Longrightarrow> fl_round x = ulp x * of_int (round_even (x / ulp x))"
  by (simp add: fl_round_def)

lemma ulp_pos [simp]: "0 < ulp x"
  by (simp add: ulp_def)

lemma ulp_nonneg [simp]: "0 \<le> ulp x"
  by (simp add: ulp_def)

lemma fl_round_0 [simp]: "fl_round 0 = 0"
  by (simp add: fl_round_def)


lemma fl_round_ge_pow2:
  assumes "pow2 m \<le> x" and "- 1022 \<le> m"
  shows "pow2 m \<le> fl_round x"
proof -
  have x: "0 < x" using assms(1) pow2_pos[of m] by linarith
  define k where "k = \<lfloor>log 2 x\<rfloor>"
  have km: "m \<le> k" unfolding k_def using x assms(1) by (rule floor_log2_ge)
  have mx: "max k (- 1022) = k" using km assms(2) by simp
  have u: "ulp x = pow2 (k - 52)"
    using x mx by (simp add: ulp_def k_def)
  have "pow2 k \<le> x" unfolding k_def using x by (rule floor_log2_bounds)
  then have "pow2 k / pow2 (k - 52) \<le> x / pow2 (k - 52)"
    by (simp add: divide_right_mono)
  then have "of_int (2 ^ 52) \<le> x / ulp x" by (simp add: u pow2_diff_52)
  then have "(2 ^ 52 :: int) \<le> round_even (x / ulp x)" by (rule round_even_ge)
  then have "(2 ^ 52 :: real) \<le> of_int (round_even (x / ulp x))"
    by (metis of_int_le_iff of_int_numeral of_int_power)
  then have "pow2 (k - 52) * 2 ^ 52 \<le> fl_round x"
    unfolding fl_round_pos[OF x] u by (simp add: mult_left_mono)
  moreover have "pow2 (k - 52) * 2 ^ 52 = pow2 k"
    using pow2_diff_52[of k] by (simp add: field_simps)
  ultimately show ?thesis using pow2_mono[OF km] by linarith
qed



lemma fl_round_of_int:
  assumes "\<bar>n\<bar> < 2 ^ 53"
  shows "fl_round (of_int n) = of_int n"
proof (cases "n = 0")
  case True
  then show ?thesis by simp
next
  case False
  define a where "a = \<bar>n\<bar>"
  have a: "1 \<le> a" "a < 2 ^ 53" using False assms by (simp_all add: a_def)
  have ax: "\<bar>real_of_int n\<bar> = of_int a" by (simp add: a_def)
  define k where "k = \<lfloor>log 2 (of_int a)\<rfloor>"
  have apos: "(0::real) < of_int a" using a(1) by simp
  have k0: "0 \<le> k"
    unfolding k_def using apos by (rule floor_log2_ge) (use a(1) in simp)
  have "real_of_int a < pow2 53"
    using a(2) pow2_nat[of 53] by (metis of_int_less_iff of_int_numeral of_int_power of_nat_numeral)
  then have "k < 53" unfolding k_def using apos by (intro floor_log2_less)
  then have k52: "k \<le> 52" by simp
  have u: "ulp (of_int n) = pow2 (k - 52)"
    using k0 by (simp add: ulp_def ax k_def)
  define j where "j = 52 - k"
  have j: "0 \<le> j" using k52 by (simp add: j_def)
  have "pow2 (k - 52) * pow2 j = 1" using pow2_add[of "k - 52" j] by (simp add: j_def)
  then have inv: "1 / pow2 (k - 52) = pow2 j"
    by (simp add: field_simps)
  have "of_int a / pow2 (k - 52) = of_int a * (1 / pow2 (k - 52))" by simp
  then have "of_int a / pow2 (k - 52) = of_int a * pow2 j" unfolding inv .
  also have "\<dots> = of_int (a * 2 ^ nat j)" by (simp add: pow2_of_int[OF j])
  finally have "round_even (of_int a / pow2 (k - 52)) = a * 2 ^ nat j"
    by (simp only: round_even_of_int)
  then have "fl_round (of_int n) = sgn (of_int n) * (pow2 (k - 52) * (of_int a * pow2 j))"
    using False by (simp add: fl_round_def u ax pow2_of_int[OF j])
  also have "\<dots> = sgn (of_int n) * of_int a"
    using \<open>pow2 (k - 52) * pow2 j = 1\<close> by (simp add: algebra_simps)
  also have "\<dots> = of_int n" by (simp add: a_def sgn_if)
  finally show ?thesis .
qed


lemma max_double_ge: "2 ^ 53 \<le> max_double"
  by (simp add: max_double_def)

lemma to_double_of_int:
  assumes "\<bar>n\<bar> < 2 ^ 53"
  shows "to_double (of_int n) = Some (of_int n)"
proof -
  have "\<bar>real_of_int n\<bar> < 2 ^ 53"
    using assms by (metis of_int_abs of_int_less_iff of_int_numeral of_int_power)
  then have "\<bar>real_of_int n\<bar> \<le> max_double" using max_double_ge by linarith
  then show ?thesis by (simp add: to_double_def fl_round_of_int[OF assms])
qed

lemma to_double_small [simp]:
  "to_double 0 = Some 0" "to_double 1 = Some 1" "to_double 100 = Some 100"
  "to_double 99 = Some 99" "to_double (- 99) = Some (- 99)"
  using to_double_of_int[of 0] to_double_of_int[of 1] to_double_of_int[of 100]
    to_double_of_int[of 99] to_double_of_int[of "- 99"]
  by simp_all






lemma build_100:
  "(case addConcept ''x'' None (Some ''n'') u new_ConceptNetwork of
      Inl e \<Rightarrow> Inl e
    | Inr (i1, n1) \<Rightarrow> Inr (setInitialActivation (IdList [i1]) (Some 100) n1)) = Inr net_100"
  by (simp add: addConcept_def new_ConceptNetwork_def map_has_def new_ConceptNode_def
      net_100_def Let_def setInitialActivation_def updateActivation_def
      recordActivationState_def)

lemma sigmoid_double_neg_2000: "sigmoid_double (- 2000) = Some 0"
proof -
  have "(2::real) \<le> exp 1" using exp_ge_add_one_self[of "1::real"] by simp
  then have "(2::real) ^ 2000 \<le> exp 1 ^ 2000" by (intro power_mono) simp_all
  also have "\<dots> = exp (2000 :: real)" using exp_of_nat_mult[of 2000 "1::real"] by simp
  finally have "(2::real) ^ 1024 \<le> exp 2000"
    using power_increasing[of 1024 2000 "2::real"] by linarith
  then have "pow2 1024 \<le> exp 2000" using pow2_nat[of 1024] by simp
  then have "pow2 1024 \<le> fl_round (exp 2000)" by (rule fl_round_ge_pow2) simp
  moreover have "max_double < pow2 1024"
    using pow2_nat[of 1024] by (simp add: max_double_def)
  ultimately have "\<not> \<bar>fl_round (exp 2000)\<bar> \<le> max_double" by linarith
  then have "dexp 2000 = None" by (simp add: dexp_def to_double_def)
  then show ?thesis by (simp add: sigmoid_double_def)
qed












end
